theory Spec2Isabelle
  imports Complex_Main "HOL-Library.Char_ord" "HOL-Library.List_Lexorder"
begin

section \<open>The pagination engine of \<^verbatim>\<open>frontend/src/App.vue\<close>\<close>

text \<open>
  The component keeps its whole session in the reactive object returned by \<^verbatim>\<open>data()\<close>
  and mutates it from the methods \<^verbatim>\<open>doSearch\<close>, \<^verbatim>\<open>ensureCursorForPageEnd\<close>,
  \<^verbatim>\<open>prefetchWindow\<close> and \<^verbatim>\<open>goToPage\<close>. Each method is embedded as a function
  that takes the session and the outside world and returns both updated.

  \<^item> JavaScript numbers that hold page numbers are \<open>int\<close>, lengths and sizes are \<open>nat\<close>,
    scores are \<open>real\<close>.
  \<^item> The objects \<^verbatim>\<open>pageCache\<close> and \<^verbatim>\<open>pageEndCursor\<close> are maps from page numbers.
    A stored \<^verbatim>\<open>null\<close> cursor is \<open>Some None\<close>; every read of the source goes through
    JavaScript truthiness, which \<open>cursorAt\<close> spells out. A cached empty array is truthy.
  \<^item> The backend behind \<^verbatim>\<open>fetch('/search')\<close> is a parameter: a function from its own
    state and the request payload to the outcome of the call and its next state. \<open>Inl m\<close>
    is the message of the \<^verbatim>\<open>Error\<close> that \<^verbatim>\<open>callSearchApi\<close> throws (a rejected fetch, a
    status that is not ok, a body that is not JSON).
  \<^item> The world also keeps the trace of every request sent with the outcome it got, so
    that "no request is issued" and "this request is issued" can be stated.
  \<^item> An \<^verbatim>\<open>async\<close> method returns an \<open>outcome\<close>: its promise resolves or rejects. The
    calls \<^verbatim>\<open>this.prefetchWindow(this.currentPage)\<close> are not awaited: the model runs
    the refill to its end right after the foreground part and drops a rejection, as
    nothing handles it. Calls are thereby serialised.
\<close>

subsection \<open>Data\<close>

record result_item =
  doc_id :: string
  score :: real

record cursor =
  lastscore :: real
  lastid :: string

record payload =
  pl_query :: string
  pl_size :: nat
  top_k :: nat
  use_prf :: bool
  last_min_bm25_score :: "real option"
  last_max_rerank_id :: "string option"
  filters :: "string option"

record api_response =
  resp_results :: "result_item list option"
  total_hits :: int
  took_ms :: int

type_synonym 'g gateway = "'g \<Rightarrow> payload \<Rightarrow> (string + api_response) \<times> 'g"

record 'g world =
  remote :: 'g
  trace :: "(payload \<times> (string + api_response)) list"

datatype 'a outcome = Resolved 'a | Rejected string

record session =
  query :: string
  usePrf :: bool
  lang :: string
  pageSize :: nat
  loading :: bool
  loadingHealth :: bool
  prefetching :: bool
  error :: string
  results :: "result_item list"
  meta :: "(int \<times> int) option"
  health :: string
  currentPage :: int
  windowStart :: int
  windowEnd :: int
  pageCache :: "int \<rightharpoonup> result_item list"
  pageEndCursor :: "int \<rightharpoonup> cursor option"
  noMoreAfterPage :: "int option"

definition data :: session where
  "data = \<lparr> query = ''live indexing bm25'', usePrf = False, lang = ''en'', pageSize = 10,
     loading = False, loadingHealth = False, prefetching = False, error = [],
     results = [], meta = None, health = [],
     currentPage = 1, windowStart = 1, windowEnd = 1,
     pageCache = Map.empty, pageEndCursor = Map.empty, noMoreAfterPage = None \<rparr>"

subsection \<open>JavaScript helpers\<close>

text \<open>\<^verbatim>\<open>String.prototype.trim\<close> on strings of 8-bit code units: tab, line feed, vertical
  tab, form feed, carriage return, space and no-break space are stripped at both ends.\<close>

definition is_ws :: "char \<Rightarrow> bool" where
  "is_ws c = (c = CHR 0x09 \<or> c = CHR 0x0A \<or> c = CHR 0x0B \<or> c = CHR 0x0C \<or> c = CHR 0x0D
     \<or> c = CHR 0x20 \<or> c = CHR 0xA0)"

definition js_trim :: "string \<Rightarrow> string" where
  "js_trim s = rev (dropWhile is_ws (rev (dropWhile is_ws s)))"

text \<open>\<^verbatim>\<open>items.slice(a, b)\<close> for \<open>0 \<le> a \<le> b\<close>.\<close>

definition js_slice :: "'a list \<Rightarrow> nat \<Rightarrow> nat \<Rightarrow> 'a list" where
  "js_slice xs a b = take (b - a) (drop a xs)"

text \<open>\<^verbatim>\<open>e?.message || String(e)\<close>: an empty message is falsy, and \<^verbatim>\<open>String\<close> of an
  \<^verbatim>\<open>Error\<close> with an empty message is its name.\<close>

definition error_text :: "string \<Rightarrow> string" where
  "error_text m = (if m = [] then ''Error'' else m)"

text \<open>\<^verbatim>\<open>data.results || []\<close>\<close>

definition results_or_empty :: "api_response \<Rightarrow> result_item list" where
  "results_or_empty d = (case resp_results d of None \<Rightarrow> [] | Some xs \<Rightarrow> xs)"

text \<open>The truthy value of \<^verbatim>\<open>this.pageEndCursor[p]\<close>: a missing key and a stored
  \<^verbatim>\<open>null\<close> are both falsy.\<close>

definition cursorAt :: "session \<Rightarrow> int \<Rightarrow> cursor option" where
  "cursorAt s p = (case pageEndCursor s p of Some (Some c) \<Rightarrow> Some c | _ \<Rightarrow> None)"

text \<open>\<^verbatim>\<open>Math.ceil(n / ps)\<close> as the loop bound of the backfill: for \<open>ps = 0\<close> the quotient is
  \<^verbatim>\<open>NaN\<close> (no iteration) or \<^verbatim>\<open>Infinity\<close>, where the first iteration breaks on its empty
  slice, so one iteration stands for all.\<close>

definition pagesOf :: "nat \<Rightarrow> nat \<Rightarrow> nat" where
  "pagesOf n ps = (if ps = 0 then (if n = 0 then 0 else 1) else (n + ps - 1) div ps)"

text \<open>\<^verbatim>\<open>Math.min(5, Math.ceil(n / ps) || 1)\<close>: \<^verbatim>\<open>0\<close> and \<^verbatim>\<open>NaN\<close> are falsy and give 1,
  \<^verbatim>\<open>Infinity\<close> gives 5.\<close>

definition maxPagesToShowOf :: "nat \<Rightarrow> nat \<Rightarrow> nat" where
  "maxPagesToShowOf n ps =
     (if ps = 0 then (if n = 0 then 1 else 5)
      else min 5 (if (n + ps - 1) div ps = 0 then 1 else (n + ps - 1) div ps))"

subsection \<open>The methods\<close>

definition buildPayload :: "session \<Rightarrow> nat \<Rightarrow> cursor option \<Rightarrow> payload" where
  "buildPayload s sz cur =
     \<lparr> pl_query = query s, pl_size = sz, top_k = sz, use_prf = usePrf s,
       last_min_bm25_score = map_option lastscore cur,
       last_max_rerank_id = map_option lastid cur,
       filters = (if lang s \<noteq> [] then Some (lang s) else None) \<rparr>"

definition getEndCursorFromResults :: "result_item list \<Rightarrow> cursor option" where
  "getEndCursorFromResults items =
     (if items = [] then None
      else Some \<lparr> lastscore = score (last items), lastid = doc_id (last items) \<rparr>)"

definition callSearchApi ::
  "'g gateway \<Rightarrow> session \<Rightarrow> 'g world \<Rightarrow> nat \<Rightarrow> cursor option \<Rightarrow> (string + api_response) \<times> 'g world" where
  "callSearchApi gw s w sz cur =
     (case gw (remote w) (buildPayload s sz cur) of
        (r, g') \<Rightarrow> (r, w\<lparr> remote := g', trace := trace w @ [(buildPayload s sz cur, r)] \<rparr>))"

definition resetPaginationState :: "session \<Rightarrow> session" where
  "resetPaginationState s =
     s\<lparr> currentPage := 1, windowStart := 1, windowEnd := 1,
        pageCache := Map.empty, pageEndCursor := Map.empty, noMoreAfterPage := None \<rparr>"

text \<open>\<^verbatim>\<open>items.slice(i * this.pageSize, (i + 1) * this.pageSize)\<close>, the slice both loops
  take.\<close>

definition pageSlice :: "result_item list \<Rightarrow> nat \<Rightarrow> nat \<Rightarrow> result_item list" where
  "pageSlice items ps i = js_slice items (i * ps) ((i + 1) * ps)"

text \<open>The body of the loop of \<^verbatim>\<open>ensureCursorForPageEnd\<close>: page and cursor are stored
  only where the entry is falsy (a cached page is never falsy, a null cursor is).\<close>

definition storeIfAbsent :: "session \<Rightarrow> int \<Rightarrow> result_item list \<Rightarrow> session" where
  "storeIfAbsent s p slice =
     (let s1 = (if pageCache s p = None then s\<lparr> pageCache := (pageCache s)(p \<mapsto> slice) \<rparr> else s)
      in if cursorAt s1 p = None
         then s1\<lparr> pageEndCursor := (pageEndCursor s1)(p \<mapsto> getEndCursorFromResults slice) \<rparr>
         else s1)"

fun backfillLoop :: "nat \<Rightarrow> result_item list \<Rightarrow> nat list \<Rightarrow> session \<Rightarrow> session" where
  "backfillLoop ps items [] s = s"
| "backfillLoop ps items (i # is) s =
     (let slice = pageSlice items ps i
      in if slice = [] then s
         else backfillLoop ps items is (storeIfAbsent s (int i + 1) slice))"

definition ensureCursorForPageEnd ::
  "'g gateway \<Rightarrow> int \<Rightarrow> session \<times> 'g world \<Rightarrow> cursor option outcome \<times> session \<times> 'g world" where
  "ensureCursorForPageEnd gw pageNum sw =
     (case sw of (s, w) \<Rightarrow>
        if pageNum \<le> 0 then (Resolved None, s, w)
        else (case cursorAt s pageNum of
          Some c \<Rightarrow> (Resolved (Some c), s, w)
        | None \<Rightarrow>
            (case callSearchApi gw s w (nat pageNum * pageSize s) None of
               (Inl e, w1) \<Rightarrow> (Rejected e, s, w1)
             | (Inr d, w1) \<Rightarrow>
                 (let items = results_or_empty d;
                      pages = pagesOf (length items) (pageSize s);
                      s1 = backfillLoop (pageSize s) items [0..<pages] s
                  in (Resolved (cursorAt s1 pageNum), s1, w1)))))"

text \<open>The loop of \<^verbatim>\<open>prefetchWindow\<close>: page \<open>start + i\<close> and its cursor are overwritten
  with the \<open>i\<close>-th slice; the loop breaks at the first empty slice.\<close>

definition storePage :: "session \<Rightarrow> int \<Rightarrow> result_item list \<Rightarrow> session" where
  "storePage s p slice =
     s\<lparr> pageCache := (pageCache s)(p \<mapsto> slice),
        pageEndCursor := (pageEndCursor s)(p \<mapsto> getEndCursorFromResults slice) \<rparr>"

fun windowLoop :: "int \<Rightarrow> nat \<Rightarrow> result_item list \<Rightarrow> nat list \<Rightarrow> session \<Rightarrow> session" where
  "windowLoop start ps items [] s = s"
| "windowLoop start ps items (i # is) s =
     (let slice = pageSlice items ps i
      in if slice = [] then s
         else windowLoop start ps items is (storePage s (start + int i) slice))"

text \<open>The \<^verbatim>\<open>try\<close> block of \<^verbatim>\<open>prefetchWindow\<close> after its \<^verbatim>\<open>await\<close>.\<close>

definition fillWindow :: "int \<Rightarrow> api_response \<Rightarrow> session \<Rightarrow> session" where
  "fillWindow start d s =
     (let items = results_or_empty d;
          maxPagesToShow = maxPagesToShowOf (length items) (pageSize s);
          s1 = windowLoop start (pageSize s) items [0..<maxPagesToShow] s;
          s2 = s1\<lparr> windowStart := start, windowEnd := start + int maxPagesToShow - 1 \<rparr>;
          lastPageSlice = (case pageCache s2 (windowEnd s2) of None \<Rightarrow> [] | Some xs \<Rightarrow> xs)
      in if maxPagesToShow < 5 \<or> length lastPageSlice < pageSize s2
         then s2\<lparr> noMoreAfterPage := Some (windowEnd s2) \<rparr>
         else s2)"

text \<open>The \<^verbatim>\<open>await\<close> of the entry cursor stands before the \<^verbatim>\<open>try\<close>: when the backfill
  throws, the promise of \<^verbatim>\<open>prefetchWindow\<close> rejects and neither \<^verbatim>\<open>catch\<close> nor
  \<^verbatim>\<open>finally\<close> runs.\<close>

definition prefetchWindow ::
  "'g gateway \<Rightarrow> int \<Rightarrow> session \<times> 'g world \<Rightarrow> unit outcome \<times> session \<times> 'g world" where
  "prefetchWindow gw centerPage sw =
     (let start = max 1 (centerPage - 2)
      in case (if start = 1 then (Resolved None, sw)
               else ensureCursorForPageEnd gw (start - 1) sw) of
           (Rejected e, s1, w1) \<Rightarrow> (Rejected e, s1, w1)
         | (Resolved cur, s1, w1) \<Rightarrow>
             (let s2 = s1\<lparr> prefetching := True \<rparr>
              in case callSearchApi gw s2 w1 (pageSize s2 * 5) cur of
                   (Inr d, w2) \<Rightarrow>
                     (Resolved (), (fillWindow start d s2)\<lparr> prefetching := False \<rparr>, w2)
                 | (Inl e, w2) \<Rightarrow>
                     (Resolved (),
                      s2\<lparr> error := (if error s2 \<noteq> [] then error s2 else error_text e),
                          prefetching := False \<rparr>, w2)))"

text \<open>The un-awaited call: the refill runs, its outcome is dropped.\<close>

definition background :: "unit outcome \<times> session \<times> 'g world \<Rightarrow> session \<times> 'g world" where
  "background r = snd r"

text \<open>\<^verbatim>\<open>goToPage\<close> up to, and without, the background refill of its last line.\<close>

definition goToPageForeground ::
  "'g gateway \<Rightarrow> int \<Rightarrow> session \<times> 'g world \<Rightarrow> session \<times> 'g world" where
  "goToPageForeground gw p sw =
     (case sw of (s, w) \<Rightarrow>
        (case pageCache s p of
           Some cached \<Rightarrow> (s\<lparr> currentPage := p, results := cached \<rparr>, w)
         | None \<Rightarrow>
             (let s0 = s\<lparr> loading := True \<rparr>
              in case (if p = 1 then (Resolved None, s0, w)
                       else ensureCursorForPageEnd gw (p - 1) (s0, w)) of
                   (Rejected e, s1, w1) \<Rightarrow> (s1\<lparr> error := error_text e, loading := False \<rparr>, w1)
                 | (Resolved cur, s1, w1) \<Rightarrow>
                     (case callSearchApi gw s1 w1 (pageSize s1) cur of
                        (Inl e, w2) \<Rightarrow> (s1\<lparr> error := error_text e, loading := False \<rparr>, w2)
                      | (Inr d, w2) \<Rightarrow>
                          (let items = results_or_empty d
                           in (s1\<lparr> pageCache := (pageCache s1)(p \<mapsto> items),
                                   pageEndCursor :=
                                     (pageEndCursor s1)(p \<mapsto> getEndCursorFromResults items),
                                   currentPage := p, results := items,
                                   loading := False \<rparr>, w2))))))"

definition goToPage :: "'g gateway \<Rightarrow> int \<Rightarrow> session \<times> 'g world \<Rightarrow> session \<times> 'g world" where
  "goToPage gw p sw =
     (if p < 1 then sw
      else if (case noMoreAfterPage (fst sw) of None \<Rightarrow> False | Some n \<Rightarrow> n < p) then sw
      else (let sw1 = goToPageForeground gw p sw
            in background (prefetchWindow gw (currentPage (fst sw1)) sw1)))"

definition doSearch :: "'g gateway \<Rightarrow> session \<times> 'g world \<Rightarrow> session \<times> 'g world" where
  "doSearch gw sw =
     (case sw of (s, w) \<Rightarrow>
        if js_trim (query s) = [] then (s, w)
        else (let s1 = resetPaginationState
                         (s\<lparr> error := [], loading := True, prefetching := False,
                             results := [], meta := None \<rparr>)
              in case callSearchApi gw s1 w (pageSize s1) None of
                   (Inl e, w1) \<Rightarrow> (s1\<lparr> error := error_text e, loading := False \<rparr>, w1)
                 | (Inr d, w1) \<Rightarrow>
                     (let page1 = results_or_empty d;
                          s2 = s1\<lparr> pageCache := (pageCache s1)(1 \<mapsto> page1),
                                  pageEndCursor :=
                                    (pageEndCursor s1)(1 \<mapsto> getEndCursorFromResults page1),
                                  results := page1,
                                  meta := Some (total_hits d, took_ms d) \<rparr>
                      in case background (prefetchWindow gw (currentPage s2) (s2, w1)) of
                           (s3, w2) \<Rightarrow> (s3\<lparr> loading := False \<rparr>, w2))))"

text \<open>The computed property that enables the Next button.\<close>

definition canGoNext :: "session \<Rightarrow> bool" where
  "canGoNext s =
     (case noMoreAfterPage s of
        Some n \<Rightarrow> currentPage s < n
      | None \<Rightarrow> pageCache s (currentPage s + 1) \<noteq> None \<or> windowEnd s - windowStart s + 1 = 5)"

section \<open>Backends used at concrete inputs\<close>

text \<open>
  The backend is not part of the component. The concrete sessions below run against a
  backend that serves a ranked list: it answers with the first \<open>size\<close> hits that follow
  the cursor of the payload in the order of the specification (score descending, then
  \<open>doc_id\<close> ascending). \<open>strictly_follows\<close> is that order; the component itself never
  compares a hit with a cursor.
\<close>

definition strictly_follows :: "cursor \<Rightarrow> result_item \<Rightarrow> bool" where
  "strictly_follows c x =
     (score x < lastscore c \<or> (score x = lastscore c \<and> lastid c < doc_id x))"

definition payloadCursor :: "payload \<Rightarrow> cursor option" where
  "payloadCursor p =
     (case (last_min_bm25_score p, last_max_rerank_id p) of
        (Some sc, Some i) \<Rightarrow> Some \<lparr> lastscore = sc, lastid = i \<rparr>
      | _ \<Rightarrow> None)"

definition served :: "result_item list \<Rightarrow> payload \<Rightarrow> api_response" where
  "served xs p =
     \<lparr> resp_results = Some (take (pl_size p)
         (case payloadCursor p of None \<Rightarrow> xs | Some c \<Rightarrow> filter (strictly_follows c) xs)),
       total_hits = int (length xs), took_ms = 1 \<rparr>"

definition streamGateway :: "result_item list gateway" where
  "streamGateway xs p = (Inr (served xs p), xs)"

text \<open>A backend with outages: the plan says, request by request, whether the backend is
  reachable; once the plan is used up it is.\<close>

definition plannedGateway :: "(bool list \<times> result_item list) gateway" where
  "plannedGateway g p =
     (case g of (plan, xs) \<Rightarrow>
        if plan \<noteq> [] \<and> \<not> hd plan then (Inl ''Failed to fetch'', (tl plan, xs))
        else (Inr (served xs p), (tl plan, xs)))"

text \<open>A backend that reads \<open>top_k\<close> only and ignores the cursor fields, as the example
  payload of the backend's README does.\<close>

definition topkGateway :: "result_item list gateway" where
  "topkGateway xs p =
     (Inr \<lparr> resp_results = Some (take (top_k p) xs),
            total_hits = int (length xs), took_ms = 1 \<rparr>, xs)"

text \<open>A ranked list of 26 hits, best first, and its first \<open>n\<close>.\<close>

definition ranked :: "result_item list" where
  "ranked =
    [\<lparr> doc_id = ''a'', score = 99 \<rparr>,
     \<lparr> doc_id = ''b'', score = 98 \<rparr>,
     \<lparr> doc_id = ''c'', score = 97 \<rparr>,
     \<lparr> doc_id = ''d'', score = 96 \<rparr>,
     \<lparr> doc_id = ''e'', score = 95 \<rparr>,
     \<lparr> doc_id = ''f'', score = 94 \<rparr>,
     \<lparr> doc_id = ''g'', score = 93 \<rparr>,
     \<lparr> doc_id = ''h'', score = 92 \<rparr>,
     \<lparr> doc_id = ''i'', score = 91 \<rparr>,
     \<lparr> doc_id = ''j'', score = 90 \<rparr>,
     \<lparr> doc_id = ''k'', score = 89 \<rparr>,
     \<lparr> doc_id = ''l'', score = 88 \<rparr>,
     \<lparr> doc_id = ''m'', score = 87 \<rparr>,
     \<lparr> doc_id = ''n'', score = 86 \<rparr>,
     \<lparr> doc_id = ''o'', score = 85 \<rparr>,
     \<lparr> doc_id = ''p'', score = 84 \<rparr>,
     \<lparr> doc_id = ''q'', score = 83 \<rparr>,
     \<lparr> doc_id = ''r'', score = 82 \<rparr>,
     \<lparr> doc_id = ''s'', score = 81 \<rparr>,
     \<lparr> doc_id = ''t'', score = 80 \<rparr>,
     \<lparr> doc_id = ''u'', score = 79 \<rparr>,
     \<lparr> doc_id = ''v'', score = 78 \<rparr>,
     \<lparr> doc_id = ''w'', score = 77 \<rparr>,
     \<lparr> doc_id = ''x'', score = 76 \<rparr>,
     \<lparr> doc_id = ''y'', score = 75 \<rparr>,
     \<lparr> doc_id = ''z'', score = 74 \<rparr>]"

definition hits :: "nat \<Rightarrow> result_item list" where
  "hits n = take n ranked"

definition online :: "'g \<Rightarrow> 'g world" where
  "online g = \<lparr> remote = g, trace = [] \<rparr>"

text \<open>The component as mounted, with the page size 5 chosen in the selector.\<close>

definition mounted :: session where
  "mounted = data\<lparr> pageSize := 5 \<rparr>"

section \<open>Concrete sessions\<close>

text \<open>A ranked list of 7 hits is searched; 5 more documents are ingested; the user clicks
  page 2.\<close>

definition searched7 :: "session \<times> result_item list world" where
  "searched7 = doSearch streamGateway (mounted, online (hits 7))"

definition ingested12 :: "session \<times> result_item list world" where
  "ingested12 = (fst searched7, (snd searched7)\<lparr> remote := hits 12 \<rparr>)"

text \<open>After the ingestion of \<open>ingested12\<close> the user clicks page 2: the page is cached, and
  the refill around it completes.\<close>

definition clicked12 :: "session \<times> result_item list world" where
  "clicked12 = goToPageForeground streamGateway 2 ingested12"

definition refilled12 :: "unit outcome \<times> session \<times> result_item list world" where
  "refilled12 = prefetchWindow streamGateway (currentPage (fst clicked12)) clicked12"

text \<open>A session with outages: 26 hits are searched and the first window is filled; then
  the backend fails on every refill and answers the fetches of single pages. The user
  clicks page 5, then Next, then Next.\<close>

definition outages26 :: "session \<times> (bool list \<times> result_item list) world" where
  "outages26 = doSearch plannedGateway
     (mounted, online ([True, True, False, True, False, True, False], hits 26))"

definition walk5 :: "session \<times> (bool list \<times> result_item list) world" where
  "walk5 = goToPage plannedGateway 5 outages26"

definition walk6 :: "session \<times> (bool list \<times> result_item list) world" where
  "walk6 = goToPage plannedGateway (currentPage (fst walk5) + 1) walk5"

definition walk7 :: "session \<times> (bool list \<times> result_item list) world" where
  "walk7 = goToPage plannedGateway (currentPage (fst walk6) + 1) walk6"

text \<open>A session on exactly five full pages, and jumps out of its window.\<close>

definition session25 :: "session \<times> result_item list world" where
  "session25 = doSearch streamGateway (mounted, online (hits 25))"

text \<open>The jump to page 8 of that session, as a whole and up to its refill; and a fresh
  component asked for page 3 of 15 hits.\<close>

definition jump8 :: "session \<times> result_item list world" where
  "jump8 = goToPage streamGateway 8 session25"

definition jumped8 :: "session \<times> result_item list world" where
  "jumped8 = goToPageForeground streamGateway 8 session25"

definition jump3 :: "session \<times> result_item list world" where
  "jump3 = goToPageForeground streamGateway 3 (mounted, online (hits 15))"

text \<open>A session against the backend that ignores cursors: 25 hits are searched, the user
  clicks page 4 and the refill around it completes; or the user asks for page 6.\<close>

definition blind25 :: "session \<times> result_item list world" where
  "blind25 = doSearch topkGateway (mounted, online (hits 25))"

definition blindClicked :: "session \<times> result_item list world" where
  "blindClicked = goToPageForeground topkGateway 4 blind25"

definition blindRefilled :: "unit outcome \<times> session \<times> result_item list world" where
  "blindRefilled = prefetchWindow topkGateway (currentPage (fst blindClicked)) blindClicked"

definition blindFetched :: "session \<times> result_item list world" where
  "blindFetched = goToPageForeground topkGateway 6 blind25"

text \<open>A jump followed by an outage: 25 hits are searched, \<open>goToPage 9\<close> is called, and the
  backend answers four requests before it becomes unreachable.\<close>

definition outage25 :: "session \<times> (bool list \<times> result_item list) world" where
  "outage25 = doSearch plannedGateway (mounted, online ([True, True, True, True, False], hits 25))"

definition jump9 :: "session \<times> (bool list \<times> result_item list) world" where
  "jump9 = goToPage plannedGateway 9 outage25"

text \<open>Facts of these sessions that the claims below are instantiated with.\<close>

lemma outcome_collapse:
  assumes "fst r = Resolved ()"
  shows "r = (Resolved (), fst (snd r), snd (snd r))"
  using assms by (cases r) simp

lemma answered_collapse:
  assumes "\<not> isl (snd (last t))"
  shows "snd (last t) = Inr (projr (snd (last t)))"
  using assms by simp

lemma refilled12_resolved:
  "prefetchWindow streamGateway (currentPage (fst clicked12)) (fst clicked12, snd clicked12)
     = (Resolved (), fst (snd refilled12), snd (snd refilled12))"
proof -
  have "fst refilled12 = Resolved ()" by code_simp
  then have "refilled12 = (Resolved (), fst (snd refilled12), snd (snd refilled12))"
    by (rule outcome_collapse)
  then show ?thesis by (simp add: refilled12_def)
qed

lemma refilled12_answered:
  "snd (last (trace (snd (snd refilled12))))
     = Inr (projr (snd (last (trace (snd (snd refilled12))))))"
proof -
  have "\<not> isl (snd (last (trace (snd (snd refilled12)))))" by code_simp
  then show ?thesis by (rule answered_collapse)
qed

lemma refilled12_values:
  "currentPage (fst clicked12) = 2"
  "noMoreAfterPage (fst clicked12) = Some 2"
  "pageSize (fst clicked12) = 5"
  "windowStart (fst (snd refilled12)) = 1"
  "windowEnd (fst (snd refilled12)) = 3"
  "pageSize (fst (snd refilled12)) = 5"
  "length (results_or_empty (projr (snd (last (trace (snd (snd refilled12))))))) = 12"
  "map_option length (pageCache (fst (snd refilled12)) 3) = Some 2"
  by code_simp+

lemma exchange_collapse:
  assumes "\<not> isl (snd (last t))"
  shows "last t = (fst (last t), Inr (projr (snd (last t))))"
  using assms by (cases "last t") simp

section \<open>Rejected navigation and the empty query\<close>

text \<open>
  C3. A call \<open>goToPage p\<close> with \<open>p < 1\<close>, or with \<open>noMoreAfterPage\<close> set and \<open>p\<close>
  beyond it, returns at once: the session (current page, results, cache, cursors,
  window, \<open>noMoreAfterPage\<close> and every other field) and the world (backend state and
  trace of requests) are what they were, so no request was sent.
\<close>

theorem goToPage_rejected_noop:
  assumes "p < 1 \<or> (\<exists>n. noMoreAfterPage s = Some n \<and> n < p)"
  shows "goToPage gw p (s, w) = (s, w)"
  using assms by (auto simp: goToPage_def)

theorem goToPage_rejected_noop_witness:
  "goToPage streamGateway 0 (mounted, online (hits 12)) = (mounted, online (hits 12)) \<and>
   goToPage streamGateway 3 (mounted\<lparr> noMoreAfterPage := Some 2 \<rparr>, online (hits 12))
     = (mounted\<lparr> noMoreAfterPage := Some 2 \<rparr>, online (hits 12))"
  using goToPage_rejected_noop [of 0 mounted streamGateway "online (hits 12)"]
    goToPage_rejected_noop [of 3 "mounted\<lparr> noMoreAfterPage := Some 2 \<rparr>" streamGateway
      "online (hits 12)"]
  by simp

lemma js_trim_blank:
  assumes "list_all is_ws q"
  shows "js_trim q = []"
proof -
  from assms have blank: "dropWhile is_ws q = []"
    by (simp add: list_all_iff)
  show ?thesis
    unfolding js_trim_def blank by simp
qed

text \<open>
  C10. \<open>doSearch\<close> with a query that is empty or holds white space only returns at
  once: every field of the session is what it was, and so is the world, so no request
  was sent.
\<close>

theorem doSearch_blank_query_noop:
  assumes "list_all is_ws (query s)"
  shows "doSearch gw (s, w) = (s, w)"
  using assms by (simp add: doSearch_def js_trim_blank)

theorem doSearch_blank_query_noop_witness:
  "doSearch streamGateway (mounted\<lparr> query := ''  '' \<rparr>, online (hits 12))
     = (mounted\<lparr> query := ''  '' \<rparr>, online (hits 12))"
  using doSearch_blank_query_noop [of "mounted\<lparr> query := ''  '' \<rparr>" streamGateway
    "online (hits 12)"]
  by (simp add: is_ws_def)

section \<open>The loops\<close>

subsection \<open>Slices\<close>

lemma length_pageSlice: "length (pageSlice items ps i) = min ps (length items - i * ps)"
  by (simp add: pageSlice_def js_slice_def min_def)

lemma pageSlice_empty_iff: "pageSlice items ps i = [] \<longleftrightarrow> ps = 0 \<or> length items \<le> i * ps"
  using length_pageSlice [of items ps i] by (auto simp: min_def simp del: length_0_conv simp add: length_0_conv [symmetric])

lemma pageSlice_first: "pageSlice items ps 0 = take ps items"
  by (simp add: pageSlice_def js_slice_def)

lemma below_ceiling: 
  assumes "0 < ps" and "i < (n + ps - 1) div ps"
  shows "i * ps < (n::nat)"
proof -
  from assms have "Suc i \<le> (n + ps - 1) div ps" by simp
  with assms(1) have "Suc i * ps \<le> n + ps - 1"
    by (simp add: less_eq_div_iff_mult_less_eq)
  with assms(1) show ?thesis by simp
qed

lemma ceiling_bound:
  assumes "0 < ps" and "Suc i * ps < n"
  shows "Suc i < (n + ps - 1) div ps"
proof -
  from assms have "Suc (Suc i) * ps \<le> n + ps - 1" by simp
  with assms(1) have "Suc (Suc i) \<le> (n + ps - 1) div ps"
    by (simp add: less_eq_div_iff_mult_less_eq)
  then show ?thesis by simp
qed

lemma maxPagesToShowOf_range: "1 \<le> maxPagesToShowOf n ps \<and> maxPagesToShowOf n ps \<le> 5"
  by (simp add: maxPagesToShowOf_def)

lemma maxPagesToShowOf_slices:
  assumes "0 < ps" and "0 < n" and "i < maxPagesToShowOf n ps"
  shows "i * ps < n"
proof (cases "(n + ps - 1) div ps = 0")
  case True
  with assms have "i = 0" by (simp add: maxPagesToShowOf_def)
  with assms show ?thesis by simp
next
  case False
  with assms have "i < (n + ps - 1) div ps" by (simp add: maxPagesToShowOf_def)
  with assms(1) show ?thesis by (rule below_ceiling)
qed

subsection \<open>Frames\<close>

lemma storeIfAbsent_frame:
  "\<exists>pc pe. storeIfAbsent s p xs = s\<lparr> pageCache := pc, pageEndCursor := pe \<rparr>"
proof -
  have "storeIfAbsent s p xs = s\<lparr> pageCache := pageCache (storeIfAbsent s p xs),
      pageEndCursor := pageEndCursor (storeIfAbsent s p xs) \<rparr>"
    by (simp add: storeIfAbsent_def Let_def)
  then show ?thesis by blast
qed

lemma backfillLoop_frame:
  "\<exists>pc pe. backfillLoop ps items js s = s\<lparr> pageCache := pc, pageEndCursor := pe \<rparr>"
proof (induction js arbitrary: s)
  case Nil
  have "backfillLoop ps items [] s = s\<lparr> pageCache := pageCache s, pageEndCursor := pageEndCursor s \<rparr>"
    by simp
  then show ?case by blast
next
  case (Cons i js)
  show ?case
  proof (cases "pageSlice items ps i = []")
    case True
    have "backfillLoop ps items (i # js) s = s\<lparr> pageCache := pageCache s, pageEndCursor := pageEndCursor s \<rparr>"
      using True by simp
    then show ?thesis by blast
  next
    case False
    obtain pc pe where a: "storeIfAbsent s (int i + 1) (pageSlice items ps i) = s\<lparr> pageCache := pc, pageEndCursor := pe \<rparr>"
      using storeIfAbsent_frame by blast
    obtain pc' pe' where b: "backfillLoop ps items js (s\<lparr> pageCache := pc, pageEndCursor := pe \<rparr>)
        = s\<lparr> pageCache := pc, pageEndCursor := pe \<rparr>\<lparr> pageCache := pc', pageEndCursor := pe' \<rparr>"
      using Cons.IH by blast
    have "backfillLoop ps items (i # js) s = s\<lparr> pageCache := pc', pageEndCursor := pe' \<rparr>"
      using False a b by simp
    then show ?thesis by blast
  qed
qed

lemma windowLoop_frame:
  "\<exists>pc pe. windowLoop start ps items js s = s\<lparr> pageCache := pc, pageEndCursor := pe \<rparr>"
proof (induction js arbitrary: s)
  case Nil
  have "windowLoop start ps items [] s = s\<lparr> pageCache := pageCache s, pageEndCursor := pageEndCursor s \<rparr>"
    by simp
  then show ?case by blast
next
  case (Cons i js)
  show ?case
  proof (cases "pageSlice items ps i = []")
    case True
    have "windowLoop start ps items (i # js) s = s\<lparr> pageCache := pageCache s, pageEndCursor := pageEndCursor s \<rparr>"
      using True by simp
    then show ?thesis by blast
  next
    case False
    obtain pc' pe' where b: "windowLoop start ps items js (storePage s (start + int i) (pageSlice items ps i))
        = (storePage s (start + int i) (pageSlice items ps i))\<lparr> pageCache := pc', pageEndCursor := pe' \<rparr>"
      using Cons.IH by blast
    have "windowLoop start ps items (i # js) s = s\<lparr> pageCache := pc', pageEndCursor := pe' \<rparr>"
      using False b by (simp add: storePage_def)
    then show ?thesis by blast
  qed
qed

subsection \<open>What the loops store\<close>

lemma windowLoop_other:
  assumes "p \<notin> (\<lambda>i. start + int i) ` set js"
  shows "pageCache (windowLoop start ps items js s) p = pageCache s p"
  using assms by (induction js arbitrary: s) (auto simp: Let_def storePage_def)

lemma windowLoop_stored:
  assumes "i \<in> set js" and "\<forall>j\<in>set js. pageSlice items ps j \<noteq> []"
  shows "pageCache (windowLoop start ps items js s) (start + int i) = Some (pageSlice items ps i)"
  using assms
proof (induction js arbitrary: s)
  case Nil
  then show ?case by simp
next
  case (Cons j js)
  show ?case
  proof (cases "i \<in> set js")
    case True
    with Cons show ?thesis by simp
  next
    case False
    with Cons.prems have "i = j" by simp
    with False Cons.prems show ?thesis
      by (simp add: windowLoop_other image_iff storePage_def Let_def)
  qed
qed

lemma windowLoop_nothing:
  assumes "ps = 0 \<or> items = []"
  shows "windowLoop start ps items js s = s"
  using assms by (cases js) (auto simp: pageSlice_empty_iff)

lemma storeIfAbsent_keeps:
  assumes "pageCache s q = Some xs"
  shows "pageCache (storeIfAbsent s p ys) q = Some xs"
  using assms by (auto simp: storeIfAbsent_def Let_def)

lemma storeIfAbsent_other:
  assumes "q \<noteq> p"
  shows "pageCache (storeIfAbsent s p ys) q = pageCache s q"
    and "cursorAt (storeIfAbsent s p ys) q = cursorAt s q"
  using assms by (auto simp: storeIfAbsent_def Let_def cursorAt_def)

lemma storeIfAbsent_at:
  "pageCache (storeIfAbsent s p ys) p = Some (case pageCache s p of None \<Rightarrow> ys | Some xs \<Rightarrow> xs)"
  by (auto simp: storeIfAbsent_def Let_def)

lemma storeIfAbsent_cursor_keeps:
  assumes "cursorAt s q = Some c"
  shows "cursorAt (storeIfAbsent s p ys) q = Some c"
  using assms by (auto simp: storeIfAbsent_def Let_def cursorAt_def)

lemma storeIfAbsent_cursor_at:
  assumes "cursorAt s p = None"
  shows "cursorAt (storeIfAbsent s p ys) p = getEndCursorFromResults ys"
  using assms by (auto simp: storeIfAbsent_def Let_def cursorAt_def split: option.splits)

lemma backfillLoop_keeps:
  assumes "pageCache s q = Some xs"
  shows "pageCache (backfillLoop ps items js s) q = Some xs"
  using assms
proof (induction js arbitrary: s)
  case Nil
  then show ?case by simp
next
  case (Cons j js)
  from Cons.prems
  have "pageCache (storeIfAbsent s (int j + 1) (pageSlice items ps j)) q = Some xs"
    by (rule storeIfAbsent_keeps)
  then have "pageCache (backfillLoop ps items js
      (storeIfAbsent s (int j + 1) (pageSlice items ps j))) q = Some xs"
    by (rule Cons.IH)
  with Cons.prems show ?case by (simp add: Let_def)
qed

lemma backfillLoop_cursor_keeps:
  assumes "cursorAt s q = Some c"
  shows "cursorAt (backfillLoop ps items js s) q = Some c"
  using assms
proof (induction js arbitrary: s)
  case Nil
  then show ?case by simp
next
  case (Cons j js)
  from Cons.prems
  have "cursorAt (storeIfAbsent s (int j + 1) (pageSlice items ps j)) q = Some c"
    by (rule storeIfAbsent_cursor_keeps)
  then have "cursorAt (backfillLoop ps items js
      (storeIfAbsent s (int j + 1) (pageSlice items ps j))) q = Some c"
    by (rule Cons.IH)
  with Cons.prems show ?case by (simp add: Let_def)
qed

lemma backfillLoop_cached:
  assumes "i \<in> set js" and "\<forall>j\<in>set js. pageSlice items ps j \<noteq> []"
  shows "pageCache (backfillLoop ps items js s) (int i + 1)
    = Some (case pageCache s (int i + 1) of None \<Rightarrow> pageSlice items ps i | Some xs \<Rightarrow> xs)"
  using assms
proof (induction js arbitrary: s)
  case Nil
  then show ?case by simp
next
  case (Cons j js)
  let ?s1 = "storeIfAbsent s (int j + 1) (pageSlice items ps j)"
  from Cons.prems have step: "backfillLoop ps items (j # js) s = backfillLoop ps items js ?s1"
    by (simp add: Let_def)
  show ?case
  proof (cases "i = j")
    case True
    have "pageCache ?s1 (int j + 1)
        = Some (case pageCache s (int j + 1) of None \<Rightarrow> pageSlice items ps j | Some xs \<Rightarrow> xs)"
      by (rule storeIfAbsent_at)
    then show ?thesis
      unfolding step True by (rule backfillLoop_keeps)
  next
    case False
    with Cons.prems have "i \<in> set js" and "\<forall>j\<in>set js. pageSlice items ps j \<noteq> []"
      by simp_all
    then have "pageCache (backfillLoop ps items js ?s1) (int i + 1)
        = Some (case pageCache ?s1 (int i + 1) of None \<Rightarrow> pageSlice items ps i | Some xs \<Rightarrow> xs)"
      by (rule Cons.IH)
    moreover from False have "pageCache ?s1 (int i + 1) = pageCache s (int i + 1)"
      by (simp add: storeIfAbsent_other)
    ultimately show ?thesis
      unfolding step by simp
  qed
qed

lemma backfillLoop_cursor:
  assumes "i \<in> set js" and "\<forall>j\<in>set js. pageSlice items ps j \<noteq> []"
    and "cursorAt s (int i + 1) = None"
  shows "cursorAt (backfillLoop ps items js s) (int i + 1)
    = getEndCursorFromResults (pageSlice items ps i)"
  using assms
proof (induction js arbitrary: s)
  case Nil
  then show ?case by simp
next
  case (Cons j js)
  let ?s1 = "storeIfAbsent s (int j + 1) (pageSlice items ps j)"
  from Cons.prems have step: "backfillLoop ps items (j # js) s = backfillLoop ps items js ?s1"
    by (simp add: Let_def)
  show ?case
  proof (cases "i = j")
    case True
    from Cons.prems True have "pageSlice items ps i \<noteq> []" by simp
    then obtain c where c: "getEndCursorFromResults (pageSlice items ps i) = Some c"
      by (simp add: getEndCursorFromResults_def)
    from Cons.prems(3) True have "cursorAt ?s1 (int j + 1) = getEndCursorFromResults (pageSlice items ps j)"
      by (simp add: storeIfAbsent_cursor_at)
    with c True have "cursorAt ?s1 (int i + 1) = Some c" by simp
    then have "cursorAt (backfillLoop ps items js ?s1) (int i + 1) = Some c"
      by (rule backfillLoop_cursor_keeps)
    with c show ?thesis unfolding step by simp
  next
    case False
    with Cons.prems have "i \<in> set js" and "\<forall>j\<in>set js. pageSlice items ps j \<noteq> []"
      and "cursorAt ?s1 (int i + 1) = None"
      by (simp_all add: storeIfAbsent_other)
    then show ?thesis
      unfolding step by (rule Cons.IH)
  qed
qed

lemma above_floor:
  assumes "0 < ps" and "i * ps < (n::nat)"
  shows "i < (n + ps - 1) div ps"
proof -
  from assms have "Suc i * ps \<le> n + ps - 1" by simp
  with assms(1) have "Suc i \<le> (n + ps - 1) div ps"
    by (simp add: less_eq_div_iff_mult_less_eq)
  then show ?thesis by simp
qed

lemma pagesOf_slices:
  assumes "j \<in> set [0..<pagesOf (length items) ps]" and "0 < ps"
  shows "pageSlice items ps j \<noteq> []"
proof -
  from assms have "j < (length items + ps - 1) div ps"
    by (simp add: pagesOf_def)
  with assms(2) have "j * ps < length items"
    by (rule below_ceiling)
  with assms(2) show ?thesis
    by (simp add: pageSlice_empty_iff)
qed

section \<open>The methods, case by case\<close>

text \<open>\<open>grows s s1\<close>: \<open>s1\<close> is \<open>s\<close> with more pages and cursors cached, which is all a
  backfill does to the session.\<close>

definition grows :: "session \<Rightarrow> session \<Rightarrow> bool" where
  "grows s s1 \<longleftrightarrow>
     (\<exists>pc pe. s1 = s\<lparr> pageCache := pc, pageEndCursor := pe \<rparr>) \<and>
     (\<forall>q xs. pageCache s q = Some xs \<longrightarrow> pageCache s1 q = Some xs)"

lemma grows_refl: "grows s s"
proof -
  have "s = s\<lparr> pageCache := pageCache s, pageEndCursor := pageEndCursor s \<rparr>" by simp
  then show ?thesis unfolding grows_def by blast
qed

lemma backfillLoop_grows: "grows s (backfillLoop ps items js s)"
  unfolding grows_def using backfillLoop_frame backfillLoop_keeps by blast

lemma error_self: "s\<lparr> error := error s \<rparr> = s"
  by (cases s) simp

lemma ensureCursor_cases:
  assumes "ensureCursorForPageEnd gw n (s, w) = (out, s1, w1)"
  obtains (Known) "out = Resolved (if n \<le> 0 then None else cursorAt s n)" and "s1 = s" and "w1 = w"
    and "n \<le> 0 \<or> cursorAt s n \<noteq> None"
  | (Failed) e g where "out = Rejected e" and "s1 = s" and "0 < n" and "cursorAt s n = None"
      and "gw (remote w) (buildPayload s (nat n * pageSize s) None) = (Inl e, g)"
      and "w1 = w\<lparr> remote := g, trace := trace w @ [(buildPayload s (nat n * pageSize s) None, Inl e)] \<rparr>"
  | (Backfilled) d g where "out = Resolved (cursorAt s1 n)" and "0 < n" and "cursorAt s n = None"
      and "s1 = backfillLoop (pageSize s) (results_or_empty d)
             [0..<pagesOf (length (results_or_empty d)) (pageSize s)] s"
      and "gw (remote w) (buildPayload s (nat n * pageSize s) None) = (Inr d, g)"
      and "w1 = w\<lparr> remote := g, trace := trace w @ [(buildPayload s (nat n * pageSize s) None, Inr d)] \<rparr>"
proof (cases "n \<le> 0 \<or> cursorAt s n \<noteq> None")
  case True
  with assms have a: "out = Resolved (if n \<le> 0 then None else cursorAt s n)"
    and b: "s1 = s" and c: "w1 = w"
    by (auto simp: ensureCursorForPageEnd_def split: if_splits)
  show ?thesis by (rule Known [OF a b c True])
next
  case False
  then have n: "0 < n" and c: "cursorAt s n = None" by simp_all
  obtain r g where g: "gw (remote w) (buildPayload s (nat n * pageSize s) None) = (r, g)"
    by (cases "gw (remote w) (buildPayload s (nat n * pageSize s) None)")
  show ?thesis
  proof (cases r)
    case (Inl e)
    with assms n c g have "out = Rejected e" and "s1 = s"
      and "w1 = w\<lparr> remote := g, trace := trace w @ [(buildPayload s (nat n * pageSize s) None, Inl e)] \<rparr>"
      by (auto simp: ensureCursorForPageEnd_def callSearchApi_def)
    with n c g Inl show ?thesis by (auto intro: Failed)
  next
    case (Inr d)
    with assms n c g have "out = Resolved (cursorAt s1 n)"
      and "s1 = backfillLoop (pageSize s) (results_or_empty d)
             [0..<pagesOf (length (results_or_empty d)) (pageSize s)] s"
      and "w1 = w\<lparr> remote := g, trace := trace w @ [(buildPayload s (nat n * pageSize s) None, Inr d)] \<rparr>"
      by (auto simp: ensureCursorForPageEnd_def callSearchApi_def Let_def)
    with n c g Inr show ?thesis by (auto intro: Backfilled)
  qed
qed

lemma ensureCursor_grows:
  assumes "ensureCursorForPageEnd gw n (s, w) = (out, s1, w1)"
  shows "grows s s1"
  using assms by (cases rule: ensureCursor_cases) (simp_all add: grows_refl backfillLoop_grows)

lemma ensureCursor_rejected:
  assumes "ensureCursorForPageEnd gw n (s, w) = (Rejected e, s1, w1)"
  shows "s1 = s \<and> trace w1 \<noteq> [] \<and> snd (last (trace w1)) = Inl e"
  using assms by (cases rule: ensureCursor_cases) simp_all

lemma prefetchWindow_cases:
  assumes "prefetchWindow gw c (s, w) = (out, s', w')"
  obtains (Rejects) e where "out = Rejected e" and "s' = s" and "snd (last (trace w')) = Inl e"
  | (Caught) e s1 where "out = Resolved ()" and "grows s s1"
      and "s' = s1\<lparr> prefetching := True,
            error := (if error s1 \<noteq> [] then error s1 else error_text e), prefetching := False \<rparr>"
      and "snd (last (trace w')) = Inl e"
  | (Filled) d s1 where "out = Resolved ()" and "grows s s1"
      and "s' = (fillWindow (max 1 (c - 2)) d (s1\<lparr> prefetching := True \<rparr>))\<lparr> prefetching := False \<rparr>"
      and "snd (last (trace w')) = Inr d"
proof -
  define start where "start = max 1 (c - 2)"
  obtain o1 s1 w1 where e1: "(if start = 1 then (Resolved None, s, w)
      else ensureCursorForPageEnd gw (start - 1) (s, w)) = (o1, s1, w1)"
    by (metis prod_cases3)
  have g: "grows s s1"
  proof (cases "start = 1")
    case True
    with e1 show ?thesis by (simp add: grows_refl)
  next
    case False
    with e1 have "ensureCursorForPageEnd gw (start - 1) (s, w) = (o1, s1, w1)" by simp
    then show ?thesis by (rule ensureCursor_grows)
  qed
  have unfolded: "prefetchWindow gw c (s, w) =
    (case (o1, s1, w1) of
       (Rejected e, s1, w1) \<Rightarrow> (Rejected e, s1, w1)
     | (Resolved cur, s1, w1) \<Rightarrow>
         (let s2 = s1\<lparr> prefetching := True \<rparr>
          in case callSearchApi gw s2 w1 (pageSize s2 * 5) cur of
               (Inr d, w2) \<Rightarrow> (Resolved (), (fillWindow start d s2)\<lparr> prefetching := False \<rparr>, w2)
             | (Inl e, w2) \<Rightarrow>
                 (Resolved (),
                  s2\<lparr> error := (if error s2 \<noteq> [] then error s2 else error_text e),
                      prefetching := False \<rparr>, w2)))"
    unfolding prefetchWindow_def Let_def start_def [symmetric] e1 [symmetric] ..
  show ?thesis
  proof (cases o1)
    case (Rejected e)
    with e1 have "ensureCursorForPageEnd gw (start - 1) (s, w) = (Rejected e, s1, w1)"
      by (auto split: if_splits)
    then have "s1 = s \<and> trace w1 \<noteq> [] \<and> snd (last (trace w1)) = Inl e"
      by (rule ensureCursor_rejected)
    moreover from assms Rejected have "out = Rejected e" and "s' = s1" and "w' = w1"
      unfolding unfolded by simp_all
    ultimately show ?thesis by (auto intro: Rejects)
  next
    case (Resolved cur)
    let ?s2 = "s1\<lparr> prefetching := True \<rparr>"
    obtain r w2 where e2: "callSearchApi gw ?s2 w1 (pageSize ?s2 * 5) cur = (r, w2)"
      by (cases "callSearchApi gw ?s2 w1 (pageSize ?s2 * 5) cur")
    then have last: "snd (last (trace w2)) = r"
      by (auto simp: callSearchApi_def split: prod.splits)
    show ?thesis
    proof (cases r)
      case (Inl e)
      with assms e2 Resolved have "out = Resolved ()" and "w' = w2"
        and "s' = s1\<lparr> prefetching := True,
            error := (if error s1 \<noteq> [] then error s1 else error_text e), prefetching := False \<rparr>"
        unfolding unfolded by (auto simp: Let_def error_self)
      with g last Inl show ?thesis by (auto intro: Caught)
    next
      case (Inr d)
      with assms e2 Resolved have "out = Resolved ()" and "w' = w2"
        and "s' = (fillWindow start d ?s2)\<lparr> prefetching := False \<rparr>"
        unfolding unfolded by (simp_all add: Let_def)
      with g last Inr show ?thesis unfolding start_def by (auto intro: Filled)
    qed
  qed
qed

lemma fillWindow_frame:
  "\<exists>pc pe nm. fillWindow start d s = s\<lparr> pageCache := pc, pageEndCursor := pe,
       windowStart := start,
       windowEnd := start + int (maxPagesToShowOf (length (results_or_empty d)) (pageSize s)) - 1,
       noMoreAfterPage := nm \<rparr>"
proof -
  let ?k = "maxPagesToShowOf (length (results_or_empty d)) (pageSize s)"
  obtain pc pe where a: "windowLoop start (pageSize s) (results_or_empty d) [0..<?k] s
      = s\<lparr> pageCache := pc, pageEndCursor := pe \<rparr>"
    using windowLoop_frame by blast
  have "fillWindow start d s = s\<lparr> pageCache := pc, pageEndCursor := pe,
       windowStart := start, windowEnd := start + int ?k - 1,
       noMoreAfterPage := noMoreAfterPage (fillWindow start d s) \<rparr>"
    unfolding fillWindow_def Let_def a by simp
  then show ?thesis by blast
qed

lemma grows_fields:
  assumes "grows s s1"
  shows "query s1 = query s" and "usePrf s1 = usePrf s" and "lang s1 = lang s"
    and "pageSize s1 = pageSize s" and "loading s1 = loading s" and "prefetching s1 = prefetching s"
    and "error s1 = error s" and "results s1 = results s" and "meta s1 = meta s"
    and "currentPage s1 = currentPage s" and "windowStart s1 = windowStart s"
    and "windowEnd s1 = windowEnd s" and "noMoreAfterPage s1 = noMoreAfterPage s"
  using assms by (auto simp: grows_def)

lemma goToPageForeground_cases:
  assumes "goToPageForeground gw p (s, w) = (s', w')"
  obtains (Hit) xs where "pageCache s p = Some xs" and "s' = s\<lparr> currentPage := p, results := xs \<rparr>"
      and "w' = w"
  | (Failed) e s1 where "pageCache s p = None" and "grows (s\<lparr> loading := True \<rparr>) s1"
      and "s' = s1\<lparr> error := error_text e, loading := False \<rparr>"
      and "snd (last (trace w')) = Inl e"
  | (Fetched) d s1 where "pageCache s p = None" and "grows (s\<lparr> loading := True \<rparr>) s1"
      and "s' = s1\<lparr> pageCache := (pageCache s1)(p \<mapsto> results_or_empty d),
             pageEndCursor := (pageEndCursor s1)(p \<mapsto> getEndCursorFromResults (results_or_empty d)),
             currentPage := p, results := results_or_empty d, loading := False \<rparr>"
      and "snd (last (trace w')) = Inr d"
proof (cases "pageCache s p")
  case (Some xs)
  with assms have "s' = s\<lparr> currentPage := p, results := xs \<rparr>" and "w' = w"
    by (simp_all add: goToPageForeground_def)
  with Some show ?thesis by (rule Hit)
next
  case None
  let ?s0 = "s\<lparr> loading := True \<rparr>"
  obtain o1 s1 w1 where e1: "(if p = 1 then (Resolved None, ?s0, w)
      else ensureCursorForPageEnd gw (p - 1) (?s0, w)) = (o1, s1, w1)"
    by (metis prod_cases3)
  have g: "grows ?s0 s1"
  proof (cases "p = 1")
    case True
    with e1 show ?thesis by (simp add: grows_refl)
  next
    case False
    with e1 have "ensureCursorForPageEnd gw (p - 1) (?s0, w) = (o1, s1, w1)" by simp
    then show ?thesis by (rule ensureCursor_grows)
  qed
  have unfolded: "goToPageForeground gw p (s, w) =
    (case (o1, s1, w1) of
       (Rejected e, s1, w1) \<Rightarrow> (s1\<lparr> error := error_text e, loading := False \<rparr>, w1)
     | (Resolved cur, s1, w1) \<Rightarrow>
         (case callSearchApi gw s1 w1 (pageSize s1) cur of
            (Inl e, w2) \<Rightarrow> (s1\<lparr> error := error_text e, loading := False \<rparr>, w2)
          | (Inr d, w2) \<Rightarrow>
              (let items = results_or_empty d
               in (s1\<lparr> pageCache := (pageCache s1)(p \<mapsto> items),
                       pageEndCursor := (pageEndCursor s1)(p \<mapsto> getEndCursorFromResults items),
                       currentPage := p, results := items, loading := False \<rparr>, w2))))"
    unfolding goToPageForeground_def Let_def e1 [symmetric] using None by simp
  show ?thesis
  proof (cases o1)
    case (Rejected e)
    with e1 have "ensureCursorForPageEnd gw (p - 1) (?s0, w) = (Rejected e, s1, w1)"
      by (auto split: if_splits)
    then have "s1 = ?s0 \<and> trace w1 \<noteq> [] \<and> snd (last (trace w1)) = Inl e"
      by (rule ensureCursor_rejected)
    moreover from assms Rejected have "s' = s1\<lparr> error := error_text e, loading := False \<rparr>"
      and "w' = w1"
      unfolding unfolded by simp_all
    ultimately show ?thesis using None g by (auto intro: Failed)
  next
    case (Resolved cur)
    obtain r w2 where e2: "callSearchApi gw s1 w1 (pageSize s1) cur = (r, w2)"
      by (cases "callSearchApi gw s1 w1 (pageSize s1) cur")
    then have last: "snd (last (trace w2)) = r"
      by (auto simp: callSearchApi_def split: prod.splits)
    show ?thesis
    proof (cases r)
      case (Inl e)
      with assms e2 Resolved have "s' = s1\<lparr> error := error_text e, loading := False \<rparr>"
        and "w' = w2"
        unfolding unfolded by simp_all
      with g last Inl None show ?thesis by (auto intro: Failed)
    next
      case (Inr d)
      with assms e2 Resolved have "w' = w2" and
        "s' = s1\<lparr> pageCache := (pageCache s1)(p \<mapsto> results_or_empty d),
             pageEndCursor := (pageEndCursor s1)(p \<mapsto> getEndCursorFromResults (results_or_empty d)),
             currentPage := p, results := results_or_empty d, loading := False \<rparr>"
        unfolding unfolded by (simp_all add: Let_def)
      with g last Inr None show ?thesis by (auto intro: Fetched)
    qed
  qed
qed

section \<open>The window spans at most five pages\<close>

text \<open>The states a session can be in: the component as created, then any sequence of
  edits of the form fields, changes of the page size (whose watcher searches again when
  the query is not blank), searches, health checks and calls of \<open>goToPage\<close>, each against
  any state of the backend.\<close>

definition pageSizeWatcher :: "'g gateway \<Rightarrow> session \<times> 'g world \<Rightarrow> session \<times> 'g world" where
  "pageSizeWatcher gw sw = (if js_trim (query (fst sw)) \<noteq> [] then doSearch gw sw else sw)"

inductive reachable :: "'g gateway \<Rightarrow> session \<Rightarrow> bool" for gw :: "'g gateway" where
  created: "reachable gw data"
| edited: "reachable gw s \<Longrightarrow> reachable gw (s\<lparr> query := q, usePrf := b, lang := l \<rparr>)"
| resized: "reachable gw s \<Longrightarrow> n \<in> {5, 10, 20} \<Longrightarrow>
     reachable gw (fst (pageSizeWatcher gw (s\<lparr> pageSize := n \<rparr>, w)))"
| searched: "reachable gw s \<Longrightarrow> reachable gw (fst (doSearch gw (s, w)))"
| navigated: "reachable gw s \<Longrightarrow> reachable gw (fst (goToPage gw p (s, w)))"
| checked: "reachable gw s \<Longrightarrow> reachable gw (s\<lparr> health := h, loadingHealth := b \<rparr>)"

definition windowBounded :: "session \<Rightarrow> bool" where
  "windowBounded s \<longleftrightarrow> 1 \<le> windowStart s \<and> windowEnd s - windowStart s + 1 \<le> 5"

lemma fillWindow_bounded: "windowBounded (fillWindow (max 1 (c - 2)) d s)"
proof -
  let ?k = "maxPagesToShowOf (length (results_or_empty d)) (pageSize s)"
  obtain pc pe nm where "fillWindow (max 1 (c - 2)) d s = s\<lparr> pageCache := pc, pageEndCursor := pe,
       windowStart := max 1 (c - 2), windowEnd := max 1 (c - 2) + int ?k - 1,
       noMoreAfterPage := nm \<rparr>"
    using fillWindow_frame by blast
  moreover have "?k \<le> 5" by (simp add: maxPagesToShowOf_range)
  ultimately show ?thesis by (simp add: windowBounded_def)
qed

lemma prefetchWindow_bounded:
  assumes "windowBounded s" and "prefetchWindow gw c (s, w) = (out, s', w')"
  shows "windowBounded s'"
  using assms(2)
proof (cases rule: prefetchWindow_cases)
  case (Rejects e)
  with assms(1) show ?thesis by simp
next
  case (Caught e s1)
  with assms(1) show ?thesis by (simp add: windowBounded_def grows_fields)
next
  case (Filled d s1)
  have "windowBounded (fillWindow (max 1 (c - 2)) d (s1\<lparr> prefetching := True \<rparr>))"
    by (rule fillWindow_bounded)
  with Filled show ?thesis by (simp add: windowBounded_def)
qed

lemma goToPageForeground_bounded:
  assumes "windowBounded s" and "goToPageForeground gw p (s, w) = (s', w')"
  shows "windowBounded s'"
  using assms(2)
proof (cases rule: goToPageForeground_cases)
  case (Hit xs)
  with assms(1) show ?thesis by (simp add: windowBounded_def)
next
  case (Failed e s1)
  from Failed(2) have "windowStart s1 = windowStart s" and "windowEnd s1 = windowEnd s"
    by (simp_all add: grows_fields)
  with assms(1) Failed(3) show ?thesis by (simp add: windowBounded_def)
next
  case (Fetched d s1)
  from Fetched(2) have "windowStart s1 = windowStart s" and "windowEnd s1 = windowEnd s"
    by (simp_all add: grows_fields)
  with assms(1) Fetched(3) show ?thesis by (simp add: windowBounded_def)
qed

lemma goToPage_bounded:
  assumes "windowBounded s"
  shows "windowBounded (fst (goToPage gw p (s, w)))"
proof -
  obtain s1 w1 where fg: "goToPageForeground gw p (s, w) = (s1, w1)"
    by (cases "goToPageForeground gw p (s, w)")
  with assms have b1: "windowBounded s1" by (rule goToPageForeground_bounded)
  obtain out s2 w2 where bg: "prefetchWindow gw (currentPage s1) (s1, w1) = (out, s2, w2)"
    by (metis prod_cases3)
  with b1 have "windowBounded s2" by (rule prefetchWindow_bounded)
  with assms fg bg show ?thesis
    by (simp add: goToPage_def background_def)
qed

lemma doSearch_bounded:
  assumes "windowBounded s"
  shows "windowBounded (fst (doSearch gw (s, w)))"
proof (cases "js_trim (query s) = []")
  case True
  with assms show ?thesis by (simp add: doSearch_def)
next
  case False
  let ?s1 = "resetPaginationState (s\<lparr> error := [], loading := True, prefetching := False,
                             results := [], meta := None \<rparr>)"
  have b1: "windowBounded ?s1" by (simp add: windowBounded_def resetPaginationState_def)
  obtain r w1 where e1: "callSearchApi gw ?s1 w (pageSize ?s1) None = (r, w1)"
    by (cases "callSearchApi gw ?s1 w (pageSize ?s1) None")
  show ?thesis
  proof (cases r)
    case (Inl e)
    with False e1 have "fst (doSearch gw (s, w)) = ?s1\<lparr> error := error_text e, loading := False \<rparr>"
      by (simp add: doSearch_def Let_def)
    with b1 show ?thesis by (simp add: windowBounded_def)
  next
    case (Inr d)
    let ?s2 = "?s1\<lparr> pageCache := (pageCache ?s1)(1 \<mapsto> results_or_empty d),
                 pageEndCursor := (pageEndCursor ?s1)(1 \<mapsto> getEndCursorFromResults (results_or_empty d)),
                 results := results_or_empty d, meta := Some (total_hits d, took_ms d) \<rparr>"
    from b1 have b2: "windowBounded ?s2" by (simp add: windowBounded_def)
    obtain out s3 w2 where bg: "prefetchWindow gw (currentPage ?s2) (?s2, w1) = (out, s3, w2)"
      by (metis prod_cases3)
    with b2 have b3: "windowBounded s3" by (rule prefetchWindow_bounded)
    from False e1 Inr bg have "fst (doSearch gw (s, w)) = s3\<lparr> loading := False \<rparr>"
      by (simp add: doSearch_def Let_def background_def)
    with b3 show ?thesis by (simp add: windowBounded_def)
  qed
qed

lemma reachable_bounded:
  assumes "reachable gw s"
  shows "windowBounded s"
  using assms
proof (induction rule: reachable.induct)
  case created
  show ?case by (simp add: windowBounded_def data_def)
next
  case (edited s q b l)
  then show ?case by (simp add: windowBounded_def)
next
  case (resized s n w)
  then have "windowBounded (s\<lparr> pageSize := n \<rparr>)" by (simp add: windowBounded_def)
  then have "windowBounded (fst (doSearch gw (s\<lparr> pageSize := n \<rparr>, w)))"
    by (rule doSearch_bounded)
  with resized show ?case by (simp add: pageSizeWatcher_def windowBounded_def)
next
  case (searched s w)
  then show ?case by (simp add: doSearch_bounded)
next
  case (navigated s p w)
  then show ?case by (simp add: goToPage_bounded)
next
  case (checked s h b)
  then show ?case by (simp add: windowBounded_def)
qed

text \<open>
  C5. In every state a session can reach, and so after every completed refill, the
  window starts at page 1 or later and spans at most five pages.
\<close>

theorem window_spans_at_most_five:
  assumes "reachable gw s"
  shows "1 \<le> windowStart s \<and> windowEnd s - windowStart s + 1 \<le> 5"
  using reachable_bounded [OF assms] by (simp add: windowBounded_def)

theorem window_spans_at_most_five_witness:
  "windowStart (fst (doSearch streamGateway (data, online (hits 12)))) = 1 \<and>
   windowEnd (fst (doSearch streamGateway (data, online (hits 12)))) = 2 \<and>
   1 \<le> windowStart (fst (doSearch streamGateway (data, online (hits 12)))) \<and>
   windowEnd (fst (doSearch streamGateway (data, online (hits 12))))
     - windowStart (fst (doSearch streamGateway (data, online (hits 12)))) + 1 \<le> 5"
proof -
  have "reachable streamGateway (fst (doSearch streamGateway (data, online (hits 12))))"
    by (rule reachable.searched [OF reachable.created])
  then have "1 \<le> windowStart (fst (doSearch streamGateway (data, online (hits 12)))) \<and>
    windowEnd (fst (doSearch streamGateway (data, online (hits 12))))
     - windowStart (fst (doSearch streamGateway (data, online (hits 12)))) + 1 \<le> 5"
    by (rule window_spans_at_most_five)
  moreover have "windowStart (fst (doSearch streamGateway (data, online (hits 12)))) = 1"
    by code_simp
  moreover have "windowEnd (fst (doSearch streamGateway (data, online (hits 12)))) = 2"
    by code_simp
  ultimately show ?thesis by blast
qed

section \<open>What a completed refill leaves\<close>

lemma fillWindow_fields:
  shows "pageSize (fillWindow start d s) = pageSize s"
    and "windowStart (fillWindow start d s) = start"
    and "windowEnd (fillWindow start d s)
          = start + int (maxPagesToShowOf (length (results_or_empty d)) (pageSize s)) - 1"
    and "currentPage (fillWindow start d s) = currentPage s"
    and "error (fillWindow start d s) = error s"
    and "results (fillWindow start d s) = results s"
proof -
  obtain pc pe nm where "fillWindow start d s = s\<lparr> pageCache := pc, pageEndCursor := pe,
       windowStart := start,
       windowEnd := start + int (maxPagesToShowOf (length (results_or_empty d)) (pageSize s)) - 1,
       noMoreAfterPage := nm \<rparr>"
    using fillWindow_frame by blast
  then show "pageSize (fillWindow start d s) = pageSize s"
    and "windowStart (fillWindow start d s) = start"
    and "windowEnd (fillWindow start d s)
          = start + int (maxPagesToShowOf (length (results_or_empty d)) (pageSize s)) - 1"
    and "currentPage (fillWindow start d s) = currentPage s"
    and "error (fillWindow start d s) = error s"
    and "results (fillWindow start d s) = results s"
    by simp_all
qed

lemma fillWindow_pageCache:
  "pageCache (fillWindow start d s) = pageCache (windowLoop start (pageSize s) (results_or_empty d)
      [0..<maxPagesToShowOf (length (results_or_empty d)) (pageSize s)] s)"
  by (simp add: fillWindow_def Let_def)

text \<open>Every page of a window filled from at least one item holds its slice.\<close>

lemma fillWindow_stored:
  assumes "results_or_empty d \<noteq> []" and "0 < pageSize s"
    and "i < maxPagesToShowOf (length (results_or_empty d)) (pageSize s)"
  shows "pageCache (fillWindow start d s) (start + int i)
     = Some (pageSlice (results_or_empty d) (pageSize s) i)"
    and "pageSlice (results_or_empty d) (pageSize s) i \<noteq> []"
proof -
  let ?items = "results_or_empty d" and ?ps = "pageSize s"
  let ?k = "maxPagesToShowOf (length ?items) ?ps"
  have nonempty: "pageSlice ?items ?ps j \<noteq> []" if "j < ?k" for j
  proof -
    from assms(1) have "0 < length ?items" by simp
    with assms(2) that have "j * ?ps < length ?items"
      by (simp add: maxPagesToShowOf_slices)
    with assms(2) show ?thesis by (simp add: pageSlice_empty_iff)
  qed
  from assms(3) show "pageSlice ?items ?ps i \<noteq> []" by (rule nonempty)
  from nonempty have "\<forall>j\<in>set [0..<?k]. pageSlice ?items ?ps j \<noteq> []" by simp
  moreover from assms(3) have "i \<in> set [0..<?k]" by simp
  ultimately have "pageCache (windowLoop start ?ps ?items [0..<?k] s) (start + int i)
      = Some (pageSlice ?items ?ps i)"
    by (rule windowLoop_stored [rotated])
  then show "pageCache (fillWindow start d s) (start + int i) = Some (pageSlice ?items ?ps i)"
    by (simp add: fillWindow_pageCache)
qed

lemma fillWindow_short_is_last:
  assumes "windowStart (fillWindow start d s) \<le> p" and "p \<le> windowEnd (fillWindow start d s)"
    and "pageCache (fillWindow start d s) p = Some xs" and "length xs < pageSize s"
  shows "p = windowEnd (fillWindow start d s)"
proof -
  let ?items = "results_or_empty d" and ?ps = "pageSize s"
  let ?k = "maxPagesToShowOf (length ?items) ?ps"
  from assms(4) have ps: "0 < ?ps" by simp
  from assms(1,2) have range: "start \<le> p" "p \<le> start + int ?k - 1"
    by (simp_all add: fillWindow_fields)
  show ?thesis
  proof (cases "?items = []")
    case True
    with ps have "?k = 1" by (simp add: maxPagesToShowOf_def)
    with range show ?thesis by (simp add: fillWindow_fields)
  next
    case False
    define i where "i = nat (p - start)"
    from range have p: "p = start + int i" and i: "i < ?k" by (simp_all add: i_def)
    from False ps i have "pageCache (fillWindow start d s) (start + int i)
        = Some (pageSlice ?items ?ps i)"
      by (rule fillWindow_stored)
    with assms(3) p have "xs = pageSlice ?items ?ps i" by simp
    with assms(4) have short: "length ?items - i * ?ps < ?ps"
      by (simp add: length_pageSlice)
    have "\<not> Suc i < ?k"
    proof
      assume more: "Suc i < ?k"
      from False have some: "0 < length ?items" by simp
      from ps some more have "Suc i * ?ps < length ?items"
        by (rule maxPagesToShowOf_slices)
      with short show False by simp
    qed
    with i have "int ?k = int i + 1" by simp
    with p show ?thesis by (simp add: fillWindow_fields)
  qed
qed

section \<open>The known last page\<close>

lemma fillWindow_noMore:
  "noMoreAfterPage (fillWindow start d s) =
     (if windowEnd (fillWindow start d s) - windowStart (fillWindow start d s) + 1 < 5
        \<or> length (case pageCache (fillWindow start d s) (windowEnd (fillWindow start d s)) of
              None \<Rightarrow> [] | Some xs \<Rightarrow> xs) < pageSize (fillWindow start d s)
      then Some (windowEnd (fillWindow start d s)) else noMoreAfterPage s)"
proof -
  let ?k = "maxPagesToShowOf (length (results_or_empty d)) (pageSize s)"
  obtain pc pe where a: "windowLoop start (pageSize s) (results_or_empty d) [0..<?k] s
      = s\<lparr> pageCache := pc, pageEndCursor := pe \<rparr>"
    using windowLoop_frame by blast
  show ?thesis
    unfolding fillWindow_def Let_def a by simp
qed

text \<open>
  C2 (as amended). A completed refill that sees the end of the stream (fewer than five
  pages produced, or a last window page shorter than the page size) sets
  \<open>noMoreAfterPage\<close> to the end of its window, whatever value was there before, smaller
  or larger; a completed refill that does not see the end leaves it as it was.
\<close>

theorem refill_overwrites_known_last_page:
  assumes "prefetchWindow gw c (s, w) = (Resolved (), s', w')"
    and "snd (last (trace w')) = Inr d"
  shows "noMoreAfterPage s' =
     (if windowEnd s' - windowStart s' + 1 < 5
        \<or> length (case pageCache s' (windowEnd s') of None \<Rightarrow> [] | Some xs \<Rightarrow> xs) < pageSize s'
      then Some (windowEnd s') else noMoreAfterPage s)"
  using assms(1)
proof (cases rule: prefetchWindow_cases)
  case (Rejects e)
  then show ?thesis by simp
next
  case (Caught e s1)
  with assms(2) show ?thesis by simp
next
  case (Filled d' s1)
  let ?f = "fillWindow (max 1 (c - 2)) d' (s1\<lparr> prefetching := True \<rparr>)"
  from Filled(2) have "noMoreAfterPage (s1\<lparr> prefetching := True \<rparr>) = noMoreAfterPage s"
    by (simp add: grows_fields)
  with fillWindow_noMore [of "max 1 (c - 2)" d' "s1\<lparr> prefetching := True \<rparr>"]
  have "noMoreAfterPage ?f =
     (if windowEnd ?f - windowStart ?f + 1 < 5
        \<or> length (case pageCache ?f (windowEnd ?f) of None \<Rightarrow> [] | Some xs \<Rightarrow> xs) < pageSize ?f
      then Some (windowEnd ?f) else noMoreAfterPage s)"
    by simp
  with Filled(3) show ?thesis by simp
qed

text \<open>C2 as stated fails: the first refill sets \<open>noMoreAfterPage\<close> to 2, the refill after
  the ingestion overwrites it with 3.\<close>

theorem known_last_page_overwritten_counterexample:
  "noMoreAfterPage (fst searched7) = Some 2 \<and>
   noMoreAfterPage (fst (goToPage streamGateway 2 ingested12)) = Some 3"
  by code_simp

theorem refill_overwrites_known_last_page_witness:
  "noMoreAfterPage (fst clicked12) = Some 2 \<and> noMoreAfterPage (fst (snd refilled12)) = Some 3"
  using refill_overwrites_known_last_page [OF refilled12_resolved refilled12_answered]
  by (simp add: refilled12_values)

text \<open>
  C4 (as amended). After a completed refill, a page of the window that holds fewer
  items than the page size is the last page of the window, \<open>noMoreAfterPage\<close> is its
  number, and \<open>goToPage\<close> to any later page is rejected in that state, whatever the
  backend.
\<close>

theorem short_window_page_ends_navigation:
  assumes "prefetchWindow gw c (s, w) = (Resolved (), s', w')"
    and "snd (last (trace w')) = Inr d"
    and "windowStart s' \<le> p" and "p \<le> windowEnd s'"
    and "pageCache s' p = Some xs" and "length xs < pageSize s'"
    and "p < q"
  shows "noMoreAfterPage s' = Some p \<and> goToPage gw' q (s', w'') = (s', w'')"
  using assms(1)
proof (cases rule: prefetchWindow_cases)
  case (Rejects e)
  then show ?thesis by simp
next
  case (Caught e s1)
  with assms(2) show ?thesis by simp
next
  case (Filled d' s1)
  let ?s2 = "s1\<lparr> prefetching := True \<rparr>"
  let ?f = "fillWindow (max 1 (c - 2)) d' ?s2"
  from Filled(3) have fields: "windowStart s' = windowStart ?f" "windowEnd s' = windowEnd ?f"
    "pageCache s' = pageCache ?f" "pageSize s' = pageSize ?s2"
    "noMoreAfterPage s' = noMoreAfterPage ?f"
    by (simp_all add: fillWindow_fields)
  with assms(3-6) have "p = windowEnd ?f"
    by (intro fillWindow_short_is_last [of "max 1 (c - 2)" d' ?s2 p xs]) simp_all
  moreover from this assms(5,6) fields
  have "length (case pageCache ?f (windowEnd ?f) of None \<Rightarrow> [] | Some xs \<Rightarrow> xs) < pageSize ?f"
    by (simp add: fillWindow_fields)
  then have "noMoreAfterPage ?f = Some (windowEnd ?f)"
    using fillWindow_noMore [of "max 1 (c - 2)" d' ?s2] by simp
  ultimately have "noMoreAfterPage s' = Some p"
    using fields by simp
  with assms(7) show ?thesis by (simp add: goToPage_def)
qed

theorem short_window_page_ends_navigation_witness:
  "noMoreAfterPage (fst (snd refilled12)) = Some 3 \<and>
   goToPage streamGateway 4 (fst (snd refilled12), online (hits 12))
     = (fst (snd refilled12), online (hits 12))"
proof -
  have "map_option length (pageCache (fst (snd refilled12)) 3) = Some 2"
    by (simp add: refilled12_values)
  then obtain xs where xs: "pageCache (fst (snd refilled12)) 3 = Some xs" and "length xs = 2"
    by auto
  then have short: "length xs < pageSize (fst (snd refilled12))"
    by (simp add: refilled12_values)
  have lo: "windowStart (fst (snd refilled12)) \<le> 3" and hi: "3 \<le> windowEnd (fst (snd refilled12))"
    by (simp_all add: refilled12_values)
  have "(3::int) < 4" by simp
  from short_window_page_ends_navigation
    [OF refilled12_resolved refilled12_answered lo hi xs short this]
  show ?thesis .
qed

text \<open>C4 as stated fails. In the session with outages, page 6 is fetched with 1 item on a
  page size of 5, \<open>noMoreAfterPage\<close> stays unset, Next stays enabled and leads to page 7.
  Without any outage, the jump to page 6 of exactly 25 hits fetches an empty page 6, and
  the refill sets \<open>noMoreAfterPage\<close> to 5, not to 6.\<close>

theorem short_page_counterexample:
  "map_option length (pageCache (fst walk6) 6) = Some 1 \<and> pageSize (fst walk6) = 5 \<and>
   noMoreAfterPage (fst walk6) = None \<and> canGoNext (fst walk6) \<and>
   currentPage (fst walk7) = 7 \<and>
   pageCache (fst (goToPage streamGateway 6 session25)) 6 = Some [] \<and>
   noMoreAfterPage (fst (goToPage streamGateway 6 session25)) = Some 5"
  by code_simp

section \<open>The current page and the window\<close>




section \<open>Dense windows\<close>

lemma fillWindow_dense:
  assumes "results_or_empty d \<noteq> []" and "0 < pageSize s"
    and "windowStart (fillWindow start d s) \<le> p" and "p \<le> windowEnd (fillWindow start d s)"
  shows "pageCache (fillWindow start d s) p
    = Some (pageSlice (results_or_empty d) (pageSize s) (nat (p - start)))"
proof -
  let ?k = "maxPagesToShowOf (length (results_or_empty d)) (pageSize s)"
  define i where "i = nat (p - start)"
  from assms(3,4) have "start \<le> p" and "p \<le> start + int ?k - 1"
    by (simp_all add: fillWindow_fields)
  then have p: "p = start + int i" and i: "i < ?k" by (simp_all add: i_def)
  from assms(1,2) i have "pageCache (fillWindow start d s) (start + int i)
      = Some (pageSlice (results_or_empty d) (pageSize s) i)"
    by (rule fillWindow_stored)
  with p show ?thesis by (simp add: i_def)
qed

text \<open>
  C9 (as amended). After a completed refill whose response holds at least one item, every
  page number of the window has an entry in the page cache.
\<close>

theorem filled_window_is_dense:
  assumes "prefetchWindow gw c (s, w) = (Resolved (), s', w')"
    and "snd (last (trace w')) = Inr d"
    and "results_or_empty d \<noteq> []" and "0 < pageSize s"
    and "windowStart s' \<le> p" and "p \<le> windowEnd s'"
  shows "pageCache s' p \<noteq> None"
  using assms(1)
proof (cases rule: prefetchWindow_cases)
  case (Rejects e)
  then show ?thesis by simp
next
  case (Caught e s1)
  with assms(2) show ?thesis by simp
next
  case (Filled d' s1)
  let ?s2 = "s1\<lparr> prefetching := True \<rparr>"
  let ?start = "max 1 (c - 2)"
  from Filled(4) assms(2) have d: "d' = d" by simp
  from Filled(2) assms(4) have ps: "0 < pageSize ?s2" by (simp add: grows_fields)
  from Filled(3) d assms(5,6) have "windowStart (fillWindow ?start d ?s2) \<le> p"
    and "p \<le> windowEnd (fillWindow ?start d ?s2)"
    by (simp_all add: fillWindow_fields)
  with assms(3) ps have "pageCache (fillWindow ?start d ?s2) p
      = Some (pageSlice (results_or_empty d) (pageSize ?s2) (nat (p - ?start)))"
    by (rule fillWindow_dense)
  with Filled(3) d show ?thesis by simp
qed

theorem filled_window_is_dense_witness:
  "pageCache (fst (snd refilled12)) 3 \<noteq> None"
proof -
  have some: "results_or_empty (projr (snd (last (trace (snd (snd refilled12)))))) \<noteq> []"
    using refilled12_values(7) by auto
  have ps: "0 < pageSize (fst clicked12)"
    and lo: "windowStart (fst (snd refilled12)) \<le> 3" and hi: "3 \<le> windowEnd (fst (snd refilled12))"
    by (simp_all add: refilled12_values)
  from filled_window_is_dense [OF refilled12_resolved refilled12_answered some ps lo hi]
  show ?thesis .
qed

text \<open>C9 as stated fails when the response is empty. On exactly 25 hits the jump to page 8
  refills from page 6: the response holds no item, the window is \<open>[6, 6]\<close> and page 6 has
  no entry.\<close>

theorem empty_refill_leaves_gap_counterexample:
  "\<not> isl (snd (last (trace (snd jump8)))) \<and>
   results_or_empty (projr (snd (last (trace (snd jump8))))) = [] \<and>
   windowStart (fst jump8) = 6 \<and> windowEnd (fst jump8) = 6 \<and> pageCache (fst jump8) 6 = None"
  by code_simp

section \<open>Responses are not checked against the cursor\<close>

text \<open>
  C7 (as amended). No fetch is checked against its cursor. A response to the window fetch
  with an item that does not follow the cursor of the request is sliced and cached like
  any other, and a response to the fetch of a single page is cached as that page and
  shown; neither records an error.
\<close>

theorem fetches_are_cached_unchecked:
  "(prefetchWindow gw c (s, w) = (Resolved (), s', w') \<and> last (trace w') = (pl, Inr d)
      \<and> payloadCursor pl = Some cur \<and> x \<in> set (results_or_empty d) \<and> \<not> strictly_follows cur x
      \<and> 0 < pageSize s \<and> windowStart s' \<le> p \<and> p \<le> windowEnd s'
    \<longrightarrow> error s' = error s
      \<and> pageCache s' p
          = Some (pageSlice (results_or_empty d) (pageSize s) (nat (p - windowStart s'))))
   \<and> (goToPageForeground gw q (t, v) = (t', v') \<and> pageCache t q = None
      \<and> last (trace v') = (pl', Inr d')
      \<and> payloadCursor pl' = Some cur' \<and> x' \<in> set (results_or_empty d') \<and> \<not> strictly_follows cur' x'
    \<longrightarrow> error t' = error t \<and> pageCache t' q = Some (results_or_empty d')
      \<and> currentPage t' = q \<and> results t' = results_or_empty d')"
proof (intro conjI impI)
  assume a: "prefetchWindow gw c (s, w) = (Resolved (), s', w') \<and> last (trace w') = (pl, Inr d)
      \<and> payloadCursor pl = Some cur \<and> x \<in> set (results_or_empty d) \<and> \<not> strictly_follows cur x
      \<and> 0 < pageSize s \<and> windowStart s' \<le> p \<and> p \<le> windowEnd s'"
  then have run: "prefetchWindow gw c (s, w) = (Resolved (), s', w')"
    and answered: "snd (last (trace w')) = Inr d"
    and some: "results_or_empty d \<noteq> []" and ps: "0 < pageSize s"
    and lo: "windowStart s' \<le> p" and hi: "p \<le> windowEnd s'"
    by auto
  from run have "error s' = error s \<and> pageCache s' p
          = Some (pageSlice (results_or_empty d) (pageSize s) (nat (p - windowStart s')))"
  proof (cases rule: prefetchWindow_cases)
    case (Rejects e)
    then show ?thesis by simp
  next
    case (Caught e s1)
    with answered show ?thesis by simp
  next
    case (Filled d0 s1)
    let ?s2 = "s1\<lparr> prefetching := True \<rparr>"
    let ?start = "max 1 (c - 2)"
    from Filled(4) answered have d: "d0 = d" by simp
    from Filled(2) have same: "pageSize ?s2 = pageSize s" "error ?s2 = error s"
      by (simp_all add: grows_fields)
    from Filled(3) d lo hi have "windowStart (fillWindow ?start d ?s2) \<le> p"
      and "p \<le> windowEnd (fillWindow ?start d ?s2)"
      by (simp_all add: fillWindow_fields)
    moreover from ps same have "0 < pageSize ?s2" by simp
    ultimately have "pageCache (fillWindow ?start d ?s2) p
        = Some (pageSlice (results_or_empty d) (pageSize ?s2) (nat (p - ?start)))"
      using some by (intro fillWindow_dense)
    with Filled(3) d same show ?thesis
      by (simp add: fillWindow_fields)
  qed
  then show "error s' = error s"
    and "pageCache s' p
          = Some (pageSlice (results_or_empty d) (pageSize s) (nat (p - windowStart s')))"
    by simp_all
next
  assume b: "goToPageForeground gw q (t, v) = (t', v') \<and> pageCache t q = None
      \<and> last (trace v') = (pl', Inr d')
      \<and> payloadCursor pl' = Some cur' \<and> x' \<in> set (results_or_empty d') \<and> \<not> strictly_follows cur' x'"
  then have run: "goToPageForeground gw q (t, v) = (t', v')" and miss: "pageCache t q = None"
    and answered: "snd (last (trace v')) = Inr d'"
    by auto
  from run have "error t' = error t \<and> pageCache t' q = Some (results_or_empty d')
      \<and> currentPage t' = q \<and> results t' = results_or_empty d'"
  proof (cases rule: goToPageForeground_cases)
    case (Hit xs)
    with miss show ?thesis by simp
  next
    case (Failed e s1)
    with answered show ?thesis by simp
  next
    case (Fetched d0 s1)
    from Fetched(4) answered have "d0 = d'" by simp
    moreover from Fetched(2) have "error s1 = error t" by (simp add: grows_fields)
    ultimately show ?thesis using Fetched(3) by simp
  qed
  then show "error t' = error t" and "pageCache t' q = Some (results_or_empty d')"
    and "currentPage t' = q" and "results t' = results_or_empty d'"
    by simp_all
qed

text \<open>C7 as stated fails: the refill around page 4 asks for what follows hit \<open>e\<close>, the
  response starts again with hit \<open>a\<close>, which does not follow it, and is cached as pages
  2 to 6 without an error.\<close>

theorem unordered_response_cached_counterexample:
  "payloadCursor (fst (last (trace (snd (snd blindRefilled)))))
     = Some \<lparr> lastscore = 95, lastid = ''e'' \<rparr> \<and>
   hd (results_or_empty (projr (snd (last (trace (snd (snd blindRefilled))))))) = hd ranked \<and>
   \<not> strictly_follows \<lparr> lastscore = 95, lastid = ''e'' \<rparr> (hd ranked) \<and>
   fst blindRefilled = Resolved () \<and>
   pageCache (fst (snd blindRefilled)) 2 = Some (hits 5) \<and>
   error (fst (snd blindRefilled)) = [] \<and>
   snd (snd blindRefilled) = snd (goToPage topkGateway 4 blind25) \<and>
   pageCache (fst (goToPage topkGateway 4 blind25)) 2 = Some (hits 5) \<and>
   error (fst (goToPage topkGateway 4 blind25)) = []"
  by code_simp

theorem fetches_are_cached_unchecked_witness:
  "error (fst (snd blindRefilled)) = [] \<and> pageCache (fst (snd blindRefilled)) 2 = Some (hits 5) \<and>
   error (fst blindFetched) = [] \<and> pageCache (fst blindFetched) 6 = Some (hits 5) \<and>
   currentPage (fst blindFetched) = 6 \<and> results (fst blindFetched) = hits 5"
proof -
  let ?w' = "snd (snd blindRefilled)" and ?v' = "snd blindFetched"
  let ?d = "projr (snd (last (trace ?w')))" and ?d' = "projr (snd (last (trace ?v')))"
  have "fst blindRefilled = Resolved ()" by code_simp
  then have "blindRefilled = (Resolved (), fst (snd blindRefilled), ?w')"
    by (rule outcome_collapse)
  then have a1: "prefetchWindow topkGateway (currentPage (fst blindClicked))
      (fst blindClicked, snd blindClicked) = (Resolved (), fst (snd blindRefilled), ?w')"
    by (simp add: blindRefilled_def)
  have "\<not> isl (snd (last (trace ?w')))" by code_simp
  then have a2: "last (trace ?w') = (fst (last (trace ?w')), Inr ?d)"
    by (rule exchange_collapse)
  have a3: "payloadCursor (fst (last (trace ?w'))) = Some \<lparr> lastscore = 95, lastid = ''e'' \<rparr>"
    by code_simp
  have a4: "hd ranked \<in> set (results_or_empty ?d)" by code_simp
  have a5: "\<not> strictly_follows \<lparr> lastscore = 95, lastid = ''e'' \<rparr> (hd ranked)" by code_simp
  have a6: "0 < pageSize (fst blindClicked)" by code_simp
  have a7: "windowStart (fst (snd blindRefilled)) \<le> 2 \<and> 2 \<le> windowEnd (fst (snd blindRefilled))"
    by code_simp
  have b1: "goToPageForeground topkGateway 6 (fst blind25, snd blind25)
      = (fst blindFetched, ?v')"
    by (simp add: blindFetched_def)
  have b2: "pageCache (fst blind25) 6 = None" by code_simp
  have "\<not> isl (snd (last (trace ?v')))" by code_simp
  then have b3: "last (trace ?v') = (fst (last (trace ?v')), Inr ?d')"
    by (rule exchange_collapse)
  have b4: "payloadCursor (fst (last (trace ?v'))) = Some \<lparr> lastscore = 75, lastid = ''y'' \<rparr>"
    by code_simp
  have b5: "hd ranked \<in> set (results_or_empty ?d')" by code_simp
  have b6: "\<not> strictly_follows \<lparr> lastscore = 75, lastid = ''y'' \<rparr> (hd ranked)" by code_simp
  have vals: "error (fst blindClicked) = []" "error (fst blind25) = []"
    "pageSlice (results_or_empty ?d) (pageSize (fst blindClicked))
       (nat (2 - windowStart (fst (snd blindRefilled)))) = hits 5"
    "results_or_empty ?d' = hits 5"
    by code_simp+
  from fetches_are_cached_unchecked [where gw = topkGateway
      and c = "currentPage (fst blindClicked)" and s = "fst blindClicked"
      and w = "snd blindClicked" and s' = "fst (snd blindRefilled)" and w' = ?w'
      and pl = "fst (last (trace ?w'))" and d = ?d
      and cur = "\<lparr> lastscore = 95, lastid = ''e'' \<rparr>" and x = "hd ranked" and p = 2
      and q = 6 and t = "fst blind25" and v = "snd blind25" and t' = "fst blindFetched"
      and v' = ?v' and pl' = "fst (last (trace ?v'))" and d' = ?d'
      and cur' = "\<lparr> lastscore = 75, lastid = ''y'' \<rparr>" and x' = "hd ranked"]
    a1 a2 a3 a4 a5 a6 a7 b1 b2 b3 b4 b5 b6
  have "error (fst (snd blindRefilled)) = error (fst blindClicked)
      \<and> pageCache (fst (snd blindRefilled)) 2
          = Some (pageSlice (results_or_empty ?d) (pageSize (fst blindClicked))
               (nat (2 - windowStart (fst (snd blindRefilled)))))"
    and "error (fst blindFetched) = error (fst blind25)
      \<and> pageCache (fst blindFetched) 6 = Some (results_or_empty ?d')
      \<and> currentPage (fst blindFetched) = 6 \<and> results (fst blindFetched) = results_or_empty ?d'"
    by blast+
  with vals show ?thesis by simp
qed

section \<open>Failures of the background refill\<close>

text \<open>What holds of C1: when the window fetch of a refill fails, the refill resolves, the
  current page, the results and the window are what they were, every cached page is
  still cached, and the error text is not empty.\<close>

lemma failed_window_fetch_is_advisory:
  assumes "prefetchWindow gw c (s, w) = (Resolved (), s', w')"
    and "snd (last (trace w')) = Inl e"
  shows "currentPage s' = currentPage s \<and> results s' = results s
    \<and> windowStart s' = windowStart s \<and> windowEnd s' = windowEnd s
    \<and> noMoreAfterPage s' = noMoreAfterPage s \<and> error s' \<noteq> []
    \<and> (\<forall>q xs. pageCache s q = Some xs \<longrightarrow> pageCache s' q = Some xs)"
  using assms(1)
proof (cases rule: prefetchWindow_cases)
  case (Rejects e')
  then show ?thesis by simp
next
  case (Caught e' s1)
  from Caught(2) have "\<forall>q xs. pageCache s q = Some xs \<longrightarrow> pageCache s1 q = Some xs"
    by (simp add: grows_def)
  with Caught(2,3) show ?thesis
    by (simp add: grows_fields error_text_def)
next
  case (Filled d s1)
  with assms(2) show ?thesis by simp
qed

text \<open>When the backfill of the entry cursor fails, the promise of \<open>prefetchWindow\<close> rejects
  and the session is exactly what it was: nothing records the failure.\<close>

lemma failed_backfill_is_silent:
  assumes "prefetchWindow gw c (s, w) = (Rejected e, s', w')"
  shows "s' = s"
  using assms by (cases rule: prefetchWindow_cases) simp_all

text \<open>
  C1 on the code. 25 hits are searched, then \<open>goToPage 9\<close> is called: the backfill of the
  jump yields no cursor for page 8, page 9 is fetched from the start of the stream and
  becomes current. The backend is then unreachable; the refill around page 9 needs the
  cursor of page 6, its backfill request of 30 items fails, the promise of the refill
  rejects, and the error text of the session stays empty: no notice is surfaced.
\<close>

theorem background_backfill_failure_is_silent:
  "error (fst outage25) = [] \<and> currentPage (fst jump9) = 9 \<and>
   fst (prefetchWindow plannedGateway 9 (goToPageForeground plannedGateway 9 outage25))
     = Rejected ''Failed to fetch'' \<and>
   pl_size (fst (last (trace (snd jump9)))) = 30 \<and>
   payloadCursor (fst (last (trace (snd jump9)))) = None \<and>
   snd (last (trace (snd jump9))) = Inl ''Failed to fetch'' \<and>
   error (fst jump9) = []"
  by code_simp

section \<open>The jump to an uncached page\<close>

lemma backfillLoop_cursor_present:
  assumes "i \<in> set js" and "\<forall>j\<in>set js. pageSlice items ps j \<noteq> []"
  shows "cursorAt (backfillLoop ps items js s) (int i + 1) \<noteq> None"
proof (cases "cursorAt s (int i + 1)")
  case None
  with assms have "cursorAt (backfillLoop ps items js s) (int i + 1)
      = getEndCursorFromResults (pageSlice items ps i)"
    by (rule backfillLoop_cursor)
  moreover from assms have "pageSlice items ps i \<noteq> []" by simp
  ultimately show ?thesis by (simp add: getEndCursorFromResults_def)
next
  case (Some c)
  then have "cursorAt (backfillLoop ps items js s) (int i + 1) = Some c"
    by (rule backfillLoop_cursor_keeps)
  then show ?thesis by simp
qed

lemma buildPayload_grows:
  assumes "grows s s1"
  shows "buildPayload s1 sz cur = buildPayload s sz cur"
  using assms by (simp add: buildPayload_def grows_fields)

text \<open>
  C6 (as amended). A call for a page \<open>p > 1\<close> that is not cached, with no cursor cached for
  page \<open>p - 1\<close>, where the backend answers both requests and its first answer reaches
  into chunk \<open>p - 1\<close>: the foreground part of \<open>goToPage\<close> sends exactly two requests, one
  for \<open>(p - 1) * pageSize\<close> items with no cursor and one for \<open>pageSize\<close> items with the
  end cursor of chunk \<open>p - 1\<close>; pages 1 to \<open>p - 1\<close> are then cached (a page cached before
  keeps its content, any other holds its chunk) and have cursors; the second answer is
  cached as page \<open>p\<close>, which becomes the current page and the results shown.
\<close>

theorem jump_backfills_then_fetches:
  assumes p: "1 < p" and miss: "pageCache s p = None" and nocur: "cursorAt s (p - 1) = None"
    and ps: "0 < pageSize s"
    and first: "gw (remote w) (buildPayload s (nat (p - 1) * pageSize s) None) = (Inr d1, g1)"
    and enough: "nat (p - 2) * pageSize s < length (results_or_empty d1)"
    and cur: "cur = getEndCursorFromResults
        (pageSlice (results_or_empty d1) (pageSize s) (nat (p - 2)))"
    and second: "gw g1 (buildPayload s (pageSize s) cur) = (Inr d2, g2)"
    and run: "goToPageForeground gw p (s, w) = (s', w')"
  shows "trace w' = trace w @ [(buildPayload s (nat (p - 1) * pageSize s) None, Inr d1),
                               (buildPayload s (pageSize s) cur, Inr d2)]
    \<and> cur \<noteq> None
    \<and> (\<forall>q. 1 \<le> q \<and> q < p \<longrightarrow>
          pageCache s' q = Some (case pageCache s q of
              None \<Rightarrow> pageSlice (results_or_empty d1) (pageSize s) (nat (q - 1))
            | Some xs \<Rightarrow> xs)
          \<and> cursorAt s' q \<noteq> None)
    \<and> pageCache s' p = Some (results_or_empty d2)
    \<and> cursorAt s' p = getEndCursorFromResults (results_or_empty d2)
    \<and> currentPage s' = p \<and> results s' = results_or_empty d2"
proof -
  let ?s0 = "s\<lparr> loading := True \<rparr>"
  let ?items = "results_or_empty d1" and ?ps = "pageSize s"
  let ?js = "[0..<pagesOf (length ?items) ?ps]"
  let ?s1 = "backfillLoop ?ps ?items ?js ?s0"
  let ?p1 = "buildPayload s (nat (p - 1) * ?ps) None"
  let ?p2 = "buildPayload s ?ps cur"
  let ?w1 = "w\<lparr> remote := g1, trace := trace w @ [(?p1, Inr d1)] \<rparr>"
  let ?w2 = "?w1\<lparr> remote := g2, trace := trace ?w1 @ [(?p2, Inr d2)] \<rparr>"
  let ?items2 = "results_or_empty d2"
  have pl0: "buildPayload ?s0 sz c = buildPayload s sz c" for sz c
    by (simp add: buildPayload_def)
  have g: "grows ?s0 ?s1" by (rule backfillLoop_grows)
  have slices: "\<forall>j\<in>set ?js. pageSlice ?items ?ps j \<noteq> []"
    using ps by (simp add: pagesOf_slices)
  have inside: "nat (q - 1) \<in> set ?js" if "q < p" for q
  proof -
    from that have "nat (q - 1) \<le> nat (p - 2)" by simp
    then have "nat (q - 1) * ?ps \<le> nat (p - 2) * ?ps" by (rule mult_le_mono1)
    then have "nat (q - 1) * ?ps < length ?items" using enough by (rule le_less_trans)
    with ps have "nat (q - 1) < (length ?items + ?ps - 1) div ?ps" by (rule above_floor)
    with ps show ?thesis by (simp add: pagesOf_def)
  qed
  define i0 where "i0 = nat (p - 2)"
  from p have prev: "int i0 + 1 = p - 1" by (simp add: i0_def)
  have e1: "ensureCursorForPageEnd gw (p - 1) (?s0, w) = (Resolved (cursorAt ?s1 (p - 1)), ?s1, ?w1)"
    using p nocur first
    by (simp add: ensureCursorForPageEnd_def callSearchApi_def cursorAt_def pl0 Let_def)
  have i0: "i0 \<in> set ?js"
    using inside [of "p - 1"] by (simp add: i0_def)
  from nocur have n0: "cursorAt ?s0 (p - 1) = None"
    by (simp add: cursorAt_def)
  have "cursorAt ?s0 (int i0 + 1) = None"
    unfolding prev by (rule n0)
  with i0 slices have "cursorAt ?s1 (int i0 + 1) = getEndCursorFromResults (pageSlice ?items ?ps i0)"
    by (rule backfillLoop_cursor)
  then have "cursorAt ?s1 (p - 1) = getEndCursorFromResults (pageSlice ?items ?ps i0)"
    unfolding prev .
  then have c1: "cursorAt ?s1 (p - 1) = cur"
    unfolding cur i0_def .
  from slices i0 have "pageSlice ?items ?ps i0 \<noteq> []"
    by blast
  with cur have some: "cur \<noteq> None" by (simp add: getEndCursorFromResults_def i0_def)
  from g have same: "pageSize ?s1 = ?ps" "buildPayload ?s1 ?ps cur = ?p2"
    by (simp_all add: grows_fields buildPayload_grows pl0)
  have e2: "callSearchApi gw ?s1 ?w1 (pageSize ?s1) cur = (Inr d2, ?w2)"
    using second same by (simp add: callSearchApi_def)
  from p have "p \<noteq> 1" by simp
  with miss e1 e2 c1 have "goToPageForeground gw p (s, w) =
      (?s1\<lparr> pageCache := (pageCache ?s1)(p \<mapsto> ?items2),
            pageEndCursor := (pageEndCursor ?s1)(p \<mapsto> getEndCursorFromResults ?items2),
            currentPage := p, results := ?items2, loading := False \<rparr>, ?w2)"
    by (simp add: goToPageForeground_def Let_def)
  with run have s': "s' = ?s1\<lparr> pageCache := (pageCache ?s1)(p \<mapsto> ?items2),
            pageEndCursor := (pageEndCursor ?s1)(p \<mapsto> getEndCursorFromResults ?items2),
            currentPage := p, results := ?items2, loading := False \<rparr>"
    and w': "w' = ?w2" by simp_all
  have below: "pageCache s' q = Some (case pageCache s q of
              None \<Rightarrow> pageSlice ?items ?ps (nat (q - 1)) | Some xs \<Rightarrow> xs)
          \<and> cursorAt s' q \<noteq> None" if "1 \<le> q" and "q < p" for q
  proof -
    define i where "i = nat (q - 1)"
    from that have q: "int i + 1 = q" by (simp add: i_def)
    from that(2) have "nat (q - 1) \<in> set ?js" by (rule inside)
    then have i: "i \<in> set ?js" unfolding i_def .
    from i slices have "pageCache ?s1 (int i + 1)
        = Some (case pageCache ?s0 (int i + 1) of
              None \<Rightarrow> pageSlice ?items ?ps i | Some xs \<Rightarrow> xs)"
      by (rule backfillLoop_cached)
    then have "pageCache ?s1 q
        = Some (case pageCache ?s0 q of None \<Rightarrow> pageSlice ?items ?ps i | Some xs \<Rightarrow> xs)"
      unfolding q .
    then have pc: "pageCache ?s1 q
        = Some (case pageCache s q of
              None \<Rightarrow> pageSlice ?items ?ps (nat (q - 1)) | Some xs \<Rightarrow> xs)"
      unfolding i_def by simp
    from i slices have "cursorAt ?s1 (int i + 1) \<noteq> None"
      by (rule backfillLoop_cursor_present)
    then have cp: "cursorAt ?s1 q \<noteq> None"
      unfolding q .
    from s' that have "pageCache s' q = pageCache ?s1 q" and "cursorAt s' q = cursorAt ?s1 q"
      by (simp_all add: cursorAt_def)
    with pc cp show ?thesis by simp
  qed
  from w' have "trace w' = trace w @ [(?p1, Inr d1), (?p2, Inr d2)]" by simp
  moreover from s' have "pageCache s' p = Some ?items2"
    and "cursorAt s' p = getEndCursorFromResults ?items2"
    and "currentPage s' = p" and "results s' = ?items2"
    by (simp_all add: cursorAt_def split: option.splits)
  ultimately show ?thesis using some below by blast
qed

theorem jump_backfills_then_fetches_witness:
  "map (\<lambda>e. (pl_size (fst e), last_max_rerank_id (fst e))) (trace (snd jump3))
     = [(10, None), (5, Some ''j'')] \<and>
   pageCache (fst jump3) 1 = Some (hits 5) \<and>
   pageCache (fst jump3) 3 = Some (results (fst jump3)) \<and>
   map doc_id (results (fst jump3)) = [''k'', ''l'', ''m'', ''n'', ''o''] \<and>
   currentPage (fst jump3) = 3"
proof -
  let ?p1 = "buildPayload mounted (nat (3 - 1) * pageSize mounted) None"
  let ?d1 = "served (hits 15) ?p1"
  let ?cur = "getEndCursorFromResults (pageSlice (results_or_empty ?d1) (pageSize mounted) (nat (3 - 2)))"
  let ?p2 = "buildPayload mounted (pageSize mounted) ?cur"
  let ?d2 = "served (hits 15) ?p2"
  have p: "(1::int) < 3" by simp
  have miss: "pageCache mounted 3 = None" and nocur: "cursorAt mounted (3 - 1) = None"
    and ps: "0 < pageSize mounted"
    by (simp_all add: mounted_def data_def cursorAt_def)
  have first: "streamGateway (remote (online (hits 15))) ?p1 = (Inr ?d1, hits 15)"
    by (simp add: streamGateway_def online_def)
  have enough: "nat (3 - 2) * pageSize mounted < length (results_or_empty ?d1)"
    by code_simp
  have second: "streamGateway (hits 15) ?p2 = (Inr ?d2, hits 15)"
    by (simp add: streamGateway_def)
  have run: "goToPageForeground streamGateway 3 (mounted, online (hits 15)) = (fst jump3, snd jump3)"
    by (simp add: jump3_def)
  have vals: "trace (online (hits 15)) = []"
    "map (\<lambda>e. (pl_size (fst e), last_max_rerank_id (fst e))) [(?p1, Inr ?d1), (?p2, Inr ?d2)]
       = [(10, None), (5, Some ''j'')]"
    "pageCache mounted 1 = None"
    "pageSlice (results_or_empty ?d1) (pageSize mounted) (nat (1 - 1)) = hits 5"
    "map doc_id (results_or_empty ?d2) = [''k'', ''l'', ''m'', ''n'', ''o'']"
    by code_simp+
  from jump_backfills_then_fetches [OF p miss nocur ps first enough refl second run]
  have "trace (snd jump3) = trace (online (hits 15)) @ [(?p1, Inr ?d1), (?p2, Inr ?d2)]"
    and "pageCache (fst jump3) 1 = Some (case pageCache mounted 1 of
              None \<Rightarrow> pageSlice (results_or_empty ?d1) (pageSize mounted) (nat (1 - 1))
            | Some xs \<Rightarrow> xs)"
    and "pageCache (fst jump3) 3 = Some (results_or_empty ?d2)"
    and "currentPage (fst jump3) = 3" and "results (fst jump3) = results_or_empty ?d2"
    by simp_all
  with vals show ?thesis by simp
qed

text \<open>C6 as stated fails when the stream ends before page \<open>p - 1\<close>. On exactly 25 hits, page
  8 is not cached and page 7 has no cursor; \<open>goToPage 8\<close> is not rejected. The backfill asks
  for 35 items and yields no cursor for page 7, the page is then fetched with no cursor,
  from the start of the stream, and the first five hits become page 8.\<close>

theorem jump_past_stream_end_counterexample:
  "pageCache (fst session25) 8 = None \<and> cursorAt (fst session25) 7 = None \<and>
   noMoreAfterPage (fst session25) = None \<and>
   map (\<lambda>e. (pl_size (fst e), payloadCursor (fst e))) (drop 2 (trace (snd jumped8)))
     = [(35, None), (5, None)] \<and>
   cursorAt (fst jumped8) 7 = None \<and>
   pageCache (fst jumped8) 8 = Some (hits 5) \<and> currentPage (fst jumped8) = 8"
  by code_simp

section \<open>What else holds of the amended claims\<close>

text \<open>A response without items stores no page and leaves a window of the single page
  \<open>start\<close>.\<close>

lemma empty_response_stores_nothing:
  assumes "results_or_empty d = []"
  shows "pageCache (fillWindow start d s) = pageCache s
    \<and> windowStart (fillWindow start d s) = start \<and> windowEnd (fillWindow start d s) = start"
proof -
  from assms have "maxPagesToShowOf (length (results_or_empty d)) (pageSize s) = 1"
    by (simp add: maxPagesToShowOf_def)
  moreover from assms have "pageCache (fillWindow start d s) = pageCache s"
    by (simp add: fillWindow_pageCache windowLoop_nothing)
  ultimately show ?thesis by (simp add: fillWindow_fields)
qed

text \<open>The foreground part of \<open>goToPage\<close> never touches \<open>noMoreAfterPage\<close> or the window,
  whatever it fetches.\<close>

lemma goToPageForeground_keeps_noMore:
  assumes "goToPageForeground gw p (s, w) = (s', w')"
  shows "noMoreAfterPage s' = noMoreAfterPage s \<and> windowStart s' = windowStart s
    \<and> windowEnd s' = windowEnd s"
  using assms
proof (cases rule: goToPageForeground_cases)
  case (Hit xs)
  then show ?thesis by simp
next
  case (Failed e s1)
  from Failed(2) have "noMoreAfterPage s1 = noMoreAfterPage s" and "windowStart s1 = windowStart s"
    and "windowEnd s1 = windowEnd s"
    by (simp_all add: grows_fields)
  with Failed(3) show ?thesis by simp
next
  case (Fetched d s1)
  from Fetched(2) have "noMoreAfterPage s1 = noMoreAfterPage s" and "windowStart s1 = windowStart s"
    and "windowEnd s1 = windowEnd s"
    by (simp_all add: grows_fields)
  with Fetched(3) show ?thesis by simp
qed

end
